theory Spec2Isabelle
  imports Main "HOL-Library.Multiset"
begin

section \<open>Data model\<close>

text \<open>
  The development follows the final variant of the component, \<^verbatim>\<open>CSSTransitionGroup\<close>
  (the file with \<^verbatim>\<open>wrapWith\<close>); \<^verbatim>\<open>TransitionGroup2.tsx\<close> has the same
  \<^verbatim>\<open>elementDiff\<close>, \<^verbatim>\<open>mergeInRemovedChildren\<close>, \<^verbatim>\<open>removeLeavingChild\<close> and
  render loop.

  A React element is known to the component through its \<^verbatim>\<open>key\<close> (a string, or
  \<^verbatim>\<open>null\<close> when the caller gave none: \<open>None\<close>) and its \<^verbatim>\<open>props.className\<close>
  (\<open>None\<close> is \<^verbatim>\<open>undefined\<close>); everything else of it (type, other props, children) is
  the opaque \<open>payload\<close>.
\<close>

type_synonym key = "string option"

record 'p react_element =
  key :: key
  className :: "string option"
  payload :: 'p

text \<open>\<^verbatim>\<open>interface IElementWithIndex { element; index: number }\<close>. The index is an
  integer-valued JavaScript number; \<open>int\<close> keeps \<^verbatim>\<open>index - reduceIndex\<close> exact below zero.\<close>

record 'p element_with_index =
  element :: "'p react_element"
  index :: int

text \<open>
  Array identity. \<^verbatim>\<open>elementDiff\<close> returns either the module-level constant
  \<^verbatim>\<open>EMPTY_ARRAY\<close> or an array it has just allocated; \<open>Fresh xs\<close> stands for such a new
  array, which is never identical (\<^verbatim>\<open>===\<close>) to \<^verbatim>\<open>EMPTY_ARRAY\<close>.
\<close>

datatype 'a array_ref = EMPTY_ARRAY | Fresh "'a list"

fun contents :: "'a array_ref \<Rightarrow> 'a list" where
  "contents EMPTY_ARRAY = []"
| "contents (Fresh xs) = xs"

section \<open>CollectionDiffer: \<^verbatim>\<open>elementDiff\<close>\<close>

text \<open>\<^verbatim>\<open>comparedItems.map((element, index) => ({ element, index }))\<close>\<close>

definition with_index :: "'p react_element list \<Rightarrow> 'p element_with_index list" where
  "with_index comparedItems =
     map (\<lambda>(i, el). \<lparr>element = el, index = int i\<rparr>) (enumerate 0 comparedItems)"

definition elementDiff ::
  "'p react_element list \<Rightarrow> 'p react_element list \<Rightarrow> 'p element_with_index array_ref" where
  "elementDiff comparedItems compareWith =
     (let compareWithKeys = set (map key compareWith);
          diff = filter (\<lambda>c. key (element c) \<notin> compareWithKeys) (with_index comparedItems)
      in if length diff \<noteq> 0 then Fresh diff else EMPTY_ARRAY)"

section \<open>LeavingRegistry\<close>

subsection \<open>\<^verbatim>\<open>mergeInRemovedChildren\<close>\<close>

text \<open>The inner \<^verbatim>\<open>leavingChildren.forEach\<close> with the mutable counter \<^verbatim>\<open>indexPush\<close>,
  started at \<^verbatim>\<open>0\<close>, for one removed child of raw index \<open>i\<close>.\<close>

definition indexPush :: "'p element_with_index list \<Rightarrow> int \<Rightarrow> int" where
  "indexPush leavingChildren i =
     foldl (\<lambda>push c. if index c \<le> i + push then push + 1 else push) 0 leavingChildren"

text \<open>\<^verbatim>\<open>Array.prototype.sort\<close> with the comparator \<^verbatim>\<open>indexA - indexB\<close> is a stable sort
  by \<open>index\<close>; \<^const>\<open>sort_key\<close> is the stable insertion sort of the library.\<close>

definition mergeInRemovedChildren ::
  "'p element_with_index list \<Rightarrow> 'p element_with_index list \<Rightarrow> 'p element_with_index list" where
  "mergeInRemovedChildren removedChildren leavingChildren =
     sort_key index
       (leavingChildren @
        map (\<lambda>r. \<lparr>element = element r, index = index r + indexPush leavingChildren (index r)\<rparr>)
          removedChildren)"

text \<open>The offset as the specification words it: walk the registry, carrying the offset so
  far, and count every entry whose merged index is at most \<open>i + offset-so-far\<close>.\<close>

fun spec_offset :: "int \<Rightarrow> int \<Rightarrow> int list \<Rightarrow> int" where
  "spec_offset i offset_so_far [] = offset_so_far"
| "spec_offset i offset_so_far (m # registry) =
     (if m \<le> i + offset_so_far then spec_offset i (offset_so_far + 1) registry
      else spec_offset i offset_so_far registry)"

subsection \<open>\<^verbatim>\<open>removeLeavingChild\<close>\<close>

text \<open>The \<^verbatim>\<open>reduce\<close> over the registry, with the mutable \<^verbatim>\<open>reduceIndex\<close> of the enclosing
  updater and the accumulator \<^verbatim>\<open>remainingLeavingChildren\<close>.\<close>

fun removeLeavingChild_reduce ::
  "key \<Rightarrow> int \<Rightarrow> 'p element_with_index list \<Rightarrow> 'p element_with_index list
     \<Rightarrow> 'p element_with_index list" where
  "removeLeavingChild_reduce k reduceIndex remainingLeavingChildren [] = remainingLeavingChildren"
| "removeLeavingChild_reduce k reduceIndex remainingLeavingChildren (c # cs) =
     (if key (element c) = k
      then removeLeavingChild_reduce k 1 remainingLeavingChildren cs
      else removeLeavingChild_reduce k reduceIndex
             (remainingLeavingChildren @ [\<lparr>element = element c, index = index c - reduceIndex\<rparr>]) cs)"

definition removeLeavingChild ::
  "key \<Rightarrow> 'p element_with_index list \<Rightarrow> 'p element_with_index list" where
  "removeLeavingChild k localLeavingChildren =
     removeLeavingChild_reduce k 0 [] localLeavingChildren"

text \<open>The first variant, \<^verbatim>\<open>removeLeavingItem\<close> of \<^verbatim>\<open>TransitionGroup.tsx\<close>: \<^verbatim>\<open>find\<close>, then
  \<^verbatim>\<open>filter\<close>, then \<^verbatim>\<open>map\<close>.\<close>

definition removeLeavingItem ::
  "key \<Rightarrow> 'p element_with_index list \<Rightarrow> 'p element_with_index list" where
  "removeLeavingItem k leavingChildren =
     (case find (\<lambda>c. key (element c) = k) leavingChildren of
        None \<Rightarrow> leavingChildren
      | Some leavingItem \<Rightarrow>
          map (\<lambda>item. if index item > index leavingItem
                       then \<lparr>element = element item, index = index item - 1\<rparr> else item)
            (filter (\<lambda>c. key (element c) \<noteq> k) leavingChildren))"


text \<open>The index shift that the specification requires of \<^verbatim>\<open>destroy\<close>: an entry above the
  removed merged index \<open>d\<close> moves down by one, any other entry is left as it is.\<close>

definition shift_down :: "int \<Rightarrow> 'p element_with_index \<Rightarrow> 'p element_with_index" where
  "shift_down d c = (if index c > d then \<lparr>element = element c, index = index c - 1\<rparr> else c)"

section \<open>Reconciler: \<^verbatim>\<open>childrenToRender\<close>\<close>

text \<open>\<^verbatim>\<open>interface IWrapperElement { Element; className? }\<close>\<close>

record wrapper_element =
  Element :: string
  wrapperClassName :: "string option"

text \<open>What \<^verbatim>\<open>cloneWithClassName\<close> builds: a clone of the element with a new
  \<^verbatim>\<open>className\<close>, or (with \<^verbatim>\<open>wrapWith\<close>) a wrapper element of the given tag, key and
  \<^verbatim>\<open>className\<close> around the untouched element.\<close>

datatype 'p rendered =
    Cloned "'p react_element"
  | Wrapped string key string "'p react_element"

definition cloneWithClassName ::
  "'p react_element \<Rightarrow> string \<Rightarrow> wrapper_element option \<Rightarrow> 'p rendered" where
  "cloneWithClassName el cls wrapWith =
     (case wrapWith of
        Some w \<Rightarrow>
          Wrapped (Element w)
            (if key el = Some [] then None else key el)
            ((case wrapperClassName w of None \<Rightarrow> [] | Some c \<Rightarrow> c) @ '' '' @ cls)
            el
      | None \<Rightarrow>
          Cloned (el\<lparr>className :=
            Some ((case className el of None \<Rightarrow> [] | Some c \<Rightarrow> c) @ '' '' @ cls)\<rparr>))"

text \<open>The two template strings of the render step.\<close>

definition leaveClassName :: "string \<Rightarrow> bool \<Rightarrow> string" where
  "leaveClassName transitionName isInactive =
     transitionName @ ''-leave '' @
     (if isInactive then [] else transitionName @ ''-leave-active'')"

definition childClassName :: "string \<Rightarrow> bool \<Rightarrow> bool \<Rightarrow> string" where
  "childClassName transitionName isEntering isInactive =
     (if isEntering
      then (if isInactive then transitionName @ ''-enter''
            else transitionName @ ''-enter '' @ transitionName @ ''-enter-active'')
      else [])"

text \<open>
  A JavaScript array with holes is a list of options (\<open>None\<close> is a hole, which reads as
  \<^verbatim>\<open>undefined\<close>). \<^verbatim>\<open>arr[i] = v\<close> writes in range, appends holes and the value when \<open>i\<close> is
  at or past the length, and only sets a property (no element, no change of length) when
  \<open>i\<close> is negative.
\<close>

definition js_set :: "'a option list \<Rightarrow> int \<Rightarrow> 'a \<Rightarrow> 'a option list" where
  "js_set arr i v =
     (if i < 0 then arr
      else if nat i < length arr then arr[nat i := Some v]
      else arr @ replicate (nat i - length arr) None @ [Some v])"

definition js_get :: "'a option list \<Rightarrow> nat \<Rightarrow> 'a option" where
  "js_get arr i = (if i < length arr then arr ! i else None)"

datatype error = TypeError

text \<open>First pass: \<^verbatim>\<open>leavingChildren.forEach\<close> writes every leaving child at its index.\<close>

definition place_leaving ::
  "string \<Rightarrow> wrapper_element option \<Rightarrow> key set \<Rightarrow> 'p element_with_index list
     \<Rightarrow> 'p rendered option list \<Rightarrow> 'p rendered option list" where
  "place_leaving transitionName wrapWith inactiveChildren leavingChildren localChildrenToRender =
     foldl (\<lambda>arr c.
              js_set arr (index c)
                (cloneWithClassName (element c)
                   (leaveClassName transitionName (key (element c) \<in> inactiveChildren))
                   wrapWith))
       localChildrenToRender leavingChildren"

text \<open>Second pass: the \<^verbatim>\<open>for\<close> loop over \<^verbatim>\<open>index < childrenToRenderLength\<close> (the loop
  variable \<^verbatim>\<open>index\<close> is \<open>idx\<close> here, \<open>index\<close> being the record field). A slot that
  is still empty takes \<^verbatim>\<open>oldChildren.current[childIndex]\<close>; when that read is past the end
  of the children, \<^verbatim>\<open>child\<close> is \<^verbatim>\<open>undefined\<close> and \<^verbatim>\<open>child.key\<close> throws a TypeError.\<close>

function fill_gaps ::
  "string \<Rightarrow> wrapper_element option \<Rightarrow> 'p react_element list \<Rightarrow> key set \<Rightarrow> key set
     \<Rightarrow> nat \<Rightarrow> nat \<Rightarrow> nat \<Rightarrow> 'p rendered option list \<Rightarrow> error + 'p rendered option list" where
  "fill_gaps transitionName wrapWith children enteringChildren inactiveChildren
       childrenToRenderLength idx childIndex localChildrenToRender =
     (if idx < childrenToRenderLength then
        (if js_get localChildrenToRender idx = None then
           (if childIndex < length children then
              (let child = children ! childIndex;
                   isEntering = key child \<in> enteringChildren;
                   isInactive = key child \<in> inactiveChildren
               in fill_gaps transitionName wrapWith children enteringChildren inactiveChildren
                    childrenToRenderLength (idx + 1) (childIndex + 1)
                    (js_set localChildrenToRender (int idx)
                       (cloneWithClassName child
                          (childClassName transitionName isEntering isInactive) wrapWith)))
            else Inl TypeError)
         else fill_gaps transitionName wrapWith children enteringChildren inactiveChildren
                childrenToRenderLength (idx + 1) childIndex localChildrenToRender)
      else Inr localChildrenToRender)"
  by pat_completeness auto
termination
  by (relation "measure (\<lambda>(tn, w, cs, en, ina, n, i, ci, arr). n - i)") auto

declare fill_gaps.simps [simp del]

definition childrenToRender ::
  "string \<Rightarrow> wrapper_element option \<Rightarrow> 'p react_element list \<Rightarrow> 'p element_with_index list
     \<Rightarrow> key set \<Rightarrow> key set \<Rightarrow> error + 'p rendered option list" where
  "childrenToRender transitionName wrapWith children leavingChildren
       enteringChildren inactiveChildren =
     (let childrenToRenderLength = length children + length leavingChildren;
          localChildrenToRender =
            place_leaving transitionName wrapWith inactiveChildren leavingChildren
              (replicate childrenToRenderLength None)
      in fill_gaps transitionName wrapWith children enteringChildren inactiveChildren
           childrenToRenderLength 0 0 localChildrenToRender)"

text \<open>The rendering of one present child and of one leaving child, as the two passes build
  them.\<close>

definition render_child ::
  "string \<Rightarrow> wrapper_element option \<Rightarrow> key set \<Rightarrow> key set \<Rightarrow> 'p react_element \<Rightarrow> 'p rendered" where
  "render_child transitionName wrapWith enteringChildren inactiveChildren child =
     cloneWithClassName child
       (childClassName transitionName (key child \<in> enteringChildren)
          (key child \<in> inactiveChildren)) wrapWith"

definition render_leaving ::
  "string \<Rightarrow> wrapper_element option \<Rightarrow> key set \<Rightarrow> 'p element_with_index \<Rightarrow> 'p rendered" where
  "render_leaving transitionName wrapWith inactiveChildren c =
     cloneWithClassName (element c)
       (leaveClassName transitionName (key (element c) \<in> inactiveChildren)) wrapWith"

text \<open>The second pass as a function of the slots it walks over and the children still to
  place (a proof device: \<open>fill_gaps\<close> is shown to compute it).\<close>

fun fill_slots :: "('c \<Rightarrow> 'r) \<Rightarrow> 'r option list \<Rightarrow> 'c list \<Rightarrow> error + 'r option list" where
  "fill_slots f [] cs = Inr []"
| "fill_slots f (Some r # slots) cs =
     (case fill_slots f slots cs of Inl e \<Rightarrow> Inl e | Inr out \<Rightarrow> Inr (Some r # out))"
| "fill_slots f (None # slots) [] = Inl TypeError"
| "fill_slots f (None # slots) (c # cs) =
     (case fill_slots f slots cs of Inl e \<Rightarrow> Inl e | Inr out \<Rightarrow> Inr (Some (f c) # out))"


section \<open>The component instance and its host\<close>

text \<open>\<^verbatim>\<open>ITransitionGroupProps\<close>, without \<^verbatim>\<open>children\<close> (given at every render) and without
  \<^verbatim>\<open>className\<close> and \<^verbatim>\<open>component\<close>, which only shape the containing element. The timeouts
  are JavaScript numbers handed to \<^verbatim>\<open>window.setTimeout\<close> as they are; the model takes them
  as integers of milliseconds.\<close>

record group_props =
  transitionName :: string
  transitionEnterTimeout :: int
  transitionLeaveTimeout :: int
  wrapWith :: "wrapper_element option"

text \<open>The callbacks the component hands to the host: \<^verbatim>\<open>() => settleEnteringChild(key)\<close> and
  \<^verbatim>\<open>() => removeLeavingChild(key)\<close> to \<^verbatim>\<open>window.setTimeout\<close>, and the outer and the inner
  closure of the double \<^verbatim>\<open>requestAnimationFrame\<close>, both closed over the \<^verbatim>\<open>inactiveChildren\<close>
  of the render that made them.\<close>

datatype timer_callback = Settle key | Remove key

datatype frame_callback = Outer "key set" | Inner "key set"

fun callback_key :: "timer_callback \<Rightarrow> key" where
  "callback_key (Settle k) = k"
| "callback_key (Remove k) = k"

text \<open>
  The state of one mounted component: its props, the ref \<^verbatim>\<open>oldChildren\<close>, the three state
  variables, the refs \<^verbatim>\<open>liveTimeouts\<close> (a \<^verbatim>\<open>Map\<close> from key to timer handle) and
  \<^verbatim>\<open>liveActivationTimeouts\<close> (a \<^verbatim>\<open>Set\<close> of handles), and the part of the host it talks to:
  the window's table of pending timers (callback and delay by handle) and of pending
  animation-frame callbacks. Handles are positive and never handed out twice, so each
  table has a counter for the next handle.
\<close>

record 'p group_instance =
  props :: group_props
  oldChildren :: "'p react_element list"
  leavingChildren :: "'p element_with_index list"
  enteringChildren :: "key set"
  inactiveChildren :: "key set"
  liveTimeouts :: "key \<rightharpoonup> nat"
  liveActivationTimeouts :: "nat set"
  timers :: "nat \<rightharpoonup> timer_callback \<times> int"
  next_timer :: nat
  frames :: "nat \<rightharpoonup> frame_callback"
  next_frame :: nat

subsection \<open>Host primitives\<close>

definition setTimeout :: "timer_callback \<Rightarrow> int \<Rightarrow> 'p group_instance \<Rightarrow> nat \<times> 'p group_instance" where
  "setTimeout cb delay s =
     (next_timer s,
      s\<lparr>timers := (timers s)(next_timer s \<mapsto> (cb, delay)), next_timer := next_timer s + 1\<rparr>)"

definition clearTimeout :: "nat \<Rightarrow> 'p group_instance \<Rightarrow> 'p group_instance" where
  "clearTimeout h s = s\<lparr>timers := (timers s)(h := None)\<rparr>"

definition requestAnimationFrame :: "frame_callback \<Rightarrow> 'p group_instance \<Rightarrow> nat \<times> 'p group_instance" where
  "requestAnimationFrame cb s =
     (next_frame s,
      s\<lparr>frames := (frames s)(next_frame s \<mapsto> cb), next_frame := next_frame s + 1\<rparr>)"

subsection \<open>LifecycleScheduler\<close>

text \<open>\<^verbatim>\<open>clearLiveTimeout\<close>: the handle stored for the key, if there is one and it is truthy,
  is cleared. The map has one slot per key, shared by the settle and the remove timer.\<close>

definition clearLiveTimeout :: "key \<Rightarrow> 'p group_instance \<Rightarrow> 'p group_instance" where
  "clearLiveTimeout k s =
     (case liveTimeouts s k of
        None \<Rightarrow> s
      | Some currentTimeout \<Rightarrow> if currentTimeout \<noteq> 0 then clearTimeout currentTimeout s else s)"

definition settleEnteringChild :: "key \<Rightarrow> 'p group_instance \<Rightarrow> 'p group_instance" where
  "settleEnteringChild k s = s\<lparr>enteringChildren := enteringChildren s - {k}\<rparr>"

definition scheduleSettleEnteringChild :: "key \<Rightarrow> 'p group_instance \<Rightarrow> 'p group_instance" where
  "scheduleSettleEnteringChild k s =
     (let s1 = clearLiveTimeout k s;
          (h, s2) = setTimeout (Settle k) (transitionEnterTimeout (props s1)) s1
      in s2\<lparr>liveTimeouts := (liveTimeouts s2)(k \<mapsto> h)\<rparr>)"

definition scheduleRemoveLeavingChild :: "key \<Rightarrow> 'p group_instance \<Rightarrow> 'p group_instance" where
  "scheduleRemoveLeavingChild k s =
     (let s1 = clearLiveTimeout k s;
          (h, s2) = setTimeout (Remove k) (transitionLeaveTimeout (props s1)) s1
      in s2\<lparr>liveTimeouts := (liveTimeouts s2)(k \<mapsto> h)\<rparr>)"

subsection \<open>The effects of one render\<close>

text \<open>
  The effect commented \<^verbatim>\<open>// Clear all timeouts on unmount\<close>. Its body clears every handle
  of \<^verbatim>\<open>liveTimeouts\<close> and of \<^verbatim>\<open>liveActivationTimeouts\<close> with \<^verbatim>\<open>window.clearTimeout\<close>; with the
  dependency list \<^verbatim>\<open>[]\<close> React runs this body once, after the first render. The body
  returns nothing, so the effect has no cleanup function (\<open>None\<close>) for React to run when
  the component unmounts.
\<close>

type_synonym 'p cleanup = "('p group_instance \<Rightarrow> 'p group_instance) option"

definition clear_all_timeouts_effect :: "'p group_instance \<Rightarrow> 'p group_instance \<times> 'p cleanup" where
  "clear_all_timeouts_effect s =
     (s\<lparr>timers := timers s |` (- (ran (liveTimeouts s) \<union> liveActivationTimeouts s))\<rparr>, None)"

text \<open>The effect on \<^verbatim>\<open>addedChildren\<close>: every added key joins \<^verbatim>\<open>enteringChildren\<close> and gets
  its settle timer, the added keys are filtered out of \<^verbatim>\<open>leavingChildren\<close>, and they join
  \<^verbatim>\<open>inactiveChildren\<close>.\<close>

definition added_effect :: "'p element_with_index array_ref \<Rightarrow> 'p group_instance \<Rightarrow> 'p group_instance" where
  "added_effect addedChildren s =
     (if length (contents addedChildren) \<noteq> 0 then
        (let addedKeys = set (map (\<lambda>c. key (element c)) (contents addedChildren));
             s1 = foldl (\<lambda>st c. scheduleSettleEnteringChild (key (element c))
                                 (st\<lparr>enteringChildren :=
                                       insert (key (element c)) (enteringChildren st)\<rparr>))
                    s (contents addedChildren);
             s2 = s1\<lparr>leavingChildren :=
                        filter (\<lambda>child. key (element child) \<notin> addedKeys) (leavingChildren s1)\<rparr>
         in s2\<lparr>inactiveChildren := inactiveChildren s2 \<union> addedKeys\<rparr>)
      else s)"

text \<open>The layout effect on the removed children: each gets its remove timer, they are
  merged into \<^verbatim>\<open>leavingChildren\<close>, and they join \<^verbatim>\<open>inactiveChildren\<close>.\<close>

definition removed_layout_effect :: "'p react_element list \<Rightarrow> 'p group_instance \<Rightarrow> 'p group_instance" where
  "removed_layout_effect arrayChildren s =
     (let removedChildren = elementDiff (oldChildren s) arrayChildren in
      if length (contents removedChildren) \<noteq> 0 then
        (let s1 = foldl (\<lambda>st c. scheduleRemoveLeavingChild (key (element c)) st)
                    s (contents removedChildren);
             s2 = s1\<lparr>leavingChildren :=
                        mergeInRemovedChildren (contents removedChildren) (leavingChildren s1)\<rparr>
         in s2\<lparr>inactiveChildren :=
                  inactiveChildren s2 \<union> set (map (\<lambda>c. key (element c)) (contents removedChildren))\<rparr>)
      else s)"

text \<open>The statement at the end of the component body, run at every render: when some
  child is inactive, a frame callback is requested whose own callback, one frame later,
  takes the inactive keys of this render out of \<^verbatim>\<open>inactiveChildren\<close>.\<close>

definition schedule_activation :: "'p group_instance \<Rightarrow> 'p group_instance" where
  "schedule_activation s =
     (if inactiveChildren s \<noteq> {} then
        (let (h, s1) = requestAnimationFrame (Outer (inactiveChildren s)) s
         in s1\<lparr>liveActivationTimeouts := insert h (liveActivationTimeouts s1)\<rparr>)
      else s)"

subsection \<open>Events\<close>

text \<open>
  The component changes state on three kinds of event, which the host delivers one at a
  time: a render with new children, a timer that fires, an animation frame that fires.
  The children of a render are \<^verbatim>\<open>arrayChildren\<close>, the array of elements that \<^verbatim>\<open>toArray\<close>
  makes of the \<^verbatim>\<open>children\<close> prop.

  A render with new children computes \<^verbatim>\<open>addedChildren\<close> against \<^verbatim>\<open>oldChildren.current\<close>
  and runs the body's last statement; then the layout effect runs, then the passive
  effects in the order of the source (React runs them before it renders again), the last
  of which stores the new children in \<^verbatim>\<open>oldChildren.current\<close> and forces the next render.
  The state updaters queued by the effects are applied in the order they were queued.
\<close>

definition initial_instance :: "group_props \<Rightarrow> 'p react_element list \<Rightarrow> 'p group_instance" where
  "initial_instance p arrayChildren =
     \<lparr>props = p, oldChildren = arrayChildren, leavingChildren = [],
      enteringChildren = {}, inactiveChildren = {},
      liveTimeouts = Map.empty, liveActivationTimeouts = {},
      timers = Map.empty, next_timer = 1, frames = Map.empty, next_frame = 1\<rparr>"

text \<open>Mounting: the first render and its effects. Nothing in the component looks at the
  two timeouts before they are handed to \<^verbatim>\<open>window.setTimeout\<close>, and nothing throws.\<close>

definition mount :: "group_props \<Rightarrow> 'p react_element list \<Rightarrow> error + 'p group_instance" where
  "mount p arrayChildren =
     Inr (fst (clear_all_timeouts_effect (initial_instance p arrayChildren)))"

definition update :: "'p react_element list \<Rightarrow> 'p group_instance \<Rightarrow> 'p group_instance" where
  "update arrayChildren s =
     (let addedChildren = elementDiff arrayChildren (oldChildren s);
          s1 = schedule_activation s;
          s2 = removed_layout_effect arrayChildren s1;
          s3 = added_effect addedChildren s2;
          s4 = s3\<lparr>oldChildren := arrayChildren\<rparr>
      in schedule_activation s4)"

definition timer_fires :: "nat \<Rightarrow> 'p group_instance \<Rightarrow> 'p group_instance" where
  "timer_fires h s =
     (case timers s h of
        None \<Rightarrow> s
      | Some (cb, delay) \<Rightarrow>
          (let s1 = s\<lparr>timers := (timers s)(h := None)\<rparr> in
           schedule_activation
             (case cb of
                Settle k \<Rightarrow> settleEnteringChild k s1
              | Remove k \<Rightarrow>
                  s1\<lparr>leavingChildren := removeLeavingChild k (leavingChildren s1)\<rparr>)))"

definition frame_fires :: "nat \<Rightarrow> 'p group_instance \<Rightarrow> 'p group_instance" where
  "frame_fires h s =
     (case frames s h of
        None \<Rightarrow> s
      | Some cb \<Rightarrow>
          (let s1 = s\<lparr>frames := (frames s)(h := None)\<rparr> in
           case cb of
             Outer ks \<Rightarrow>
               (let (h', s2) = requestAnimationFrame (Inner ks) s1
                in s2\<lparr>liveActivationTimeouts := insert h' (liveActivationTimeouts s2)\<rparr>)
           | Inner ks \<Rightarrow>
               schedule_activation (s1\<lparr>inactiveChildren := inactiveChildren s1 - ks\<rparr>)))"

text \<open>Unmounting runs the cleanup functions that the effects returned. Only the first
  effect is about teardown, and what it returned is no function.\<close>

definition run_cleanup :: "'p cleanup \<Rightarrow> 'p group_instance \<Rightarrow> 'p group_instance" where
  "run_cleanup c s = (case c of None \<Rightarrow> s | Some f \<Rightarrow> f s)"

definition unmount :: "'p group_instance \<Rightarrow> 'p group_instance" where
  "unmount s = run_cleanup (snd (clear_all_timeouts_effect s)) s"

datatype 'p event =
    Update "'p react_element list"
  | TimerFires nat
  | FrameFires nat

fun step :: "'p event \<Rightarrow> 'p group_instance \<Rightarrow> 'p group_instance" where
  "step (Update arrayChildren) s = update arrayChildren s"
| "step (TimerFires h) s = timer_fires h s"
| "step (FrameFires h) s = frame_fires h s"

definition run :: "'p event list \<Rightarrow> 'p group_instance \<Rightarrow> 'p group_instance" where
  "run es s = foldl (\<lambda>st e. step e st) s es"

text \<open>The caller's contract: the keys of the children given at one render are pairwise
  different.\<close>

fun event_ok :: "'p event \<Rightarrow> bool" where
  "event_ok (Update arrayChildren) = distinct (map key arrayChildren)"
| "event_ok (TimerFires h) = True"
| "event_ok (FrameFires h) = True"

inductive reachable :: "'p group_instance \<Rightarrow> bool" where
  mounted: "distinct (map key arrayChildren) \<Longrightarrow> reachable (initial_instance p arrayChildren)"
| stepped: "reachable s \<Longrightarrow> event_ok e \<Longrightarrow> reachable (step e s)"

text \<open>The render step on the state of the component.\<close>

definition render :: "'p group_instance \<Rightarrow> error + 'p rendered option list" where
  "render s =
     childrenToRender (transitionName (props s)) (wrapWith (props s))
       (oldChildren s) (leavingChildren s) (enteringChildren s) (inactiveChildren s)"

text \<open>An element with a key and nothing else, and the props of the demo application
  (\<^verbatim>\<open>transitionName="transition"\<close>, both timeouts \<^verbatim>\<open>1000\<close>), for concrete runs.\<close>

definition el :: "string \<Rightarrow> unit react_element" where
  "el k = \<lparr>key = Some k, className = None, payload = ()\<rparr>"

definition demo_props :: group_props where
  "demo_props = \<lparr>transitionName = ''transition'', transitionEnterTimeout = 1000,
                  transitionLeaveTimeout = 1000, wrapWith = None\<rparr>"

section \<open>Invariants\<close>

text \<open>The registry as the data model describes it: merged indices in strictly ascending
  order, each a slot of the merged output; no key twice; no key that is also present.\<close>

definition registry_inv :: "'p group_instance \<Rightarrow> bool" where
  "registry_inv s \<longleftrightarrow>
     distinct (map key (oldChildren s)) \<and>
     distinct (map (\<lambda>c. key (element c)) (leavingChildren s)) \<and>
     (\<lambda>c. key (element c)) ` set (leavingChildren s) \<inter> key ` set (oldChildren s) = {} \<and>
     sorted_wrt (<) (map index (leavingChildren s)) \<and>
     (\<forall>c\<in>set (leavingChildren s).
        0 \<le> index c \<and> index c < int (length (oldChildren s) + length (leavingChildren s)))"

text \<open>The timer table against \<^verbatim>\<open>liveTimeouts\<close>: a pending timer is the one stored for its
  key; stored handles are positive, already handed out, and stored for one key only.\<close>

definition timers_inv :: "'p group_instance \<Rightarrow> bool" where
  "timers_inv s \<longleftrightarrow>
     0 < next_timer s \<and>
     (\<forall>h cb d. timers s h = Some (cb, d) \<longrightarrow> liveTimeouts s (callback_key cb) = Some h) \<and>
     (\<forall>k h. liveTimeouts s k = Some h \<longrightarrow> 0 < h \<and> h < next_timer s) \<and>
     (\<forall>k k' h. liveTimeouts s k = Some h \<and> liveTimeouts s k' = Some h \<longrightarrow> k = k')"

text \<open>The timers of the key \<open>k\<close> after it was scheduled to settle: its settle timer is
  pending, with the enter timeout as its delay, and no other timer of that key is.\<close>

definition settle_pending :: "key \<Rightarrow> 'p group_instance \<Rightarrow> bool" where
  "settle_pending k s \<longleftrightarrow>
     timers_inv s \<and>
     (\<exists>h. timers s h = Some (Settle k, transitionEnterTimeout (props s))) \<and>
     (\<forall>h cb d. timers s h = Some (cb, d) \<and> callback_key cb = k \<longrightarrow> cb = Settle k)"

text \<open>A handle that was handed out and is not pending (it fired or was cleared).\<close>

definition stale :: "nat \<Rightarrow> 'p group_instance \<Rightarrow> bool" where
  "stale h s \<longleftrightarrow> h < next_timer s \<and> timers s h = None"

text \<open>The key \<open>k\<close> is not leaving: it has no entry in the registry and no remove timer
  is pending for it.\<close>

definition no_remove_timer :: "key \<Rightarrow> 'p group_instance \<Rightarrow> bool" where
  "no_remove_timer k s \<longleftrightarrow> (\<forall>h d. timers s h \<noteq> Some (Remove k, d))"

definition not_leaving :: "key \<Rightarrow> 'p group_instance \<Rightarrow> bool" where
  "not_leaving k s \<longleftrightarrow>
     k \<notin> (\<lambda>c. key (element c)) ` set (leavingChildren s) \<and> no_remove_timer k s"

text \<open>An event that does not take the key \<open>k\<close> out of the input.\<close>

fun keeps :: "key \<Rightarrow> 'p event \<Rightarrow> bool" where
  "keeps k (Update arrayChildren) = (k \<in> key ` set arrayChildren)"
| "keeps k (TimerFires h) = True"
| "keeps k (FrameFires h) = True"


section \<open>CollectionDiffer and LeavingRegistry: proofs\<close>

lemma with_index_nth:
  "with_index xs = map (\<lambda>i. \<lparr>element = xs ! i, index = int i\<rparr>) [0..<length xs]"
  by (rule nth_equalityI) (simp_all add: with_index_def nth_enumerate_eq)

lemma length_with_index [simp]: "length (with_index xs) = length xs"
  by (simp add: with_index_def)

lemma map_element_with_index [simp]: "map element (with_index xs) = xs"
  by (rule nth_equalityI) (simp_all add: with_index_nth)

lemma map_index_with_index: "map index (with_index xs) = map int [0..<length xs]"
  by (simp add: with_index_nth comp_def)

lemma contents_elementDiff:
  "contents (elementDiff xs ys) =
     filter (\<lambda>c. key (element c) \<notin> set (map key ys)) (with_index xs)"
  by (simp add: elementDiff_def Let_def)

lemma elementDiff_EMPTY_iff:
  "elementDiff xs ys = EMPTY_ARRAY \<longleftrightarrow> contents (elementDiff xs ys) = []"
  by (simp add: elementDiff_def Let_def)

text \<open>
  Claim C8. For all keyed collections \<open>reference\<close> and \<open>comparison\<close>, \<open>elementDiff\<close> returns
  exactly the items of \<open>reference\<close> whose key does not occur in \<open>comparison\<close>, each paired
  with its index within \<open>reference\<close>, in the order of \<open>reference\<close>; the function is a pure
  function of its two arguments. It returns the shared \<^verbatim>\<open>EMPTY_ARRAY\<close> exactly when there is
  no such item (every key of \<open>reference\<close> occurs in \<open>comparison\<close>), in particular for
  \<open>elementDiff X X\<close>, so that identity with \<^verbatim>\<open>EMPTY_ARRAY\<close> detects "no difference".
\<close>

theorem elementDiff_correct:
  "contents (elementDiff reference comparison) =
     map (\<lambda>i. \<lparr>element = reference ! i, index = int i\<rparr>)
       (filter (\<lambda>i. key (reference ! i) \<notin> key ` set comparison) [0..<length reference])
   \<and> (elementDiff reference comparison = EMPTY_ARRAY
        \<longleftrightarrow> key ` set reference \<subseteq> key ` set comparison)
   \<and> elementDiff reference reference = EMPTY_ARRAY"
proof (intro conjI)
  show "contents (elementDiff reference comparison) =
     map (\<lambda>i. \<lparr>element = reference ! i, index = int i\<rparr>)
       (filter (\<lambda>i. key (reference ! i) \<notin> key ` set comparison) [0..<length reference])"
    by (simp add: contents_elementDiff with_index_nth filter_map comp_def)
  have empty: "elementDiff xs ys = EMPTY_ARRAY \<longleftrightarrow> key ` set xs \<subseteq> key ` set ys"
    for xs ys :: "'a react_element list"
  proof -
    have "set xs = element ` set (with_index xs)"
      using map_element_with_index [of xs] by (metis set_map)
    then show ?thesis
      unfolding elementDiff_EMPTY_iff contents_elementDiff filter_empty_conv
      by auto
  qed
  show "elementDiff reference comparison = EMPTY_ARRAY
        \<longleftrightarrow> key ` set reference \<subseteq> key ` set comparison"
    by (rule empty)
  show "elementDiff reference reference = EMPTY_ARRAY"
    by (simp add: empty)
qed

theorem elementDiff_correct_witness:
  "contents (elementDiff [el ''A'', el ''B'', el ''C''] [el ''A'', el ''C''])
     = [\<lparr>element = el ''B'', index = 1\<rparr>]
   \<and> elementDiff [el ''A'', el ''B''] [el ''B'', el ''A''] = EMPTY_ARRAY"
  using elementDiff_correct [of "[el ''A'', el ''B'', el ''C'']" "[el ''A'', el ''C'']"]
        elementDiff_correct [of "[el ''A'', el ''B'']" "[el ''B'', el ''A'']"]
  by (simp add: el_def)

lemma foldl_spec_offset:
  "foldl (\<lambda>push c. if index c \<le> i + push then push + 1 else push) p L
     = spec_offset i p (map index L)"
  by (induction L arbitrary: p) simp_all

lemma indexPush_spec_offset: "indexPush L i = spec_offset i 0 (map index L)"
  by (simp add: indexPush_def foldl_spec_offset)

text \<open>
  Claim C2. For every registry and every batch of newly removed items with their raw
  indices, \<open>mergeInRemovedChildren\<close> gives each new item of raw index \<open>i\<close> the merged index
  \<open>i + offset\<close>, the offset being computed by the walk over the existing registry that the
  specification describes (\<open>spec_offset\<close>, started at \<open>0\<close>), and the result is the existing
  registry followed by these new entries, sorted stably by merged index: it is ascending
  and holds exactly the old and the new entries. (Nothing is asked of the registry:
  the statement holds whether or not it is ascending.)
\<close>

theorem mergeInRemovedChildren_correct:
  "mergeInRemovedChildren removed registry =
     sort_key index
       (registry @
        map (\<lambda>r. \<lparr>element = element r,
                   index = index r + spec_offset (index r) 0 (map index registry)\<rparr>) removed)
   \<and> sorted (map index (mergeInRemovedChildren removed registry))
   \<and> mset (mergeInRemovedChildren removed registry) =
       mset registry +
       mset (map (\<lambda>r. \<lparr>element = element r,
                   index = index r + spec_offset (index r) 0 (map index registry)\<rparr>) removed)"
  by (simp add: mergeInRemovedChildren_def indexPush_spec_offset)

theorem mergeInRemovedChildren_correct_witness:
  "mergeInRemovedChildren [\<lparr>element = el ''B'', index = 0\<rparr>, \<lparr>element = el ''D'', index = 2\<rparr>]
     [\<lparr>element = el ''A'', index = 0\<rparr>, \<lparr>element = el ''C'', index = 3\<rparr>]
   = [\<lparr>element = el ''A'', index = 0\<rparr>, \<lparr>element = el ''B'', index = 1\<rparr>,
      \<lparr>element = el ''C'', index = 3\<rparr>, \<lparr>element = el ''D'', index = 4\<rparr>]"
  using mergeInRemovedChildren_correct
    [of "[\<lparr>element = el ''B'', index = 0\<rparr>, \<lparr>element = el ''D'', index = 2\<rparr>]"
        "[\<lparr>element = el ''A'', index = 0\<rparr>, \<lparr>element = el ''C'', index = 3\<rparr>]"]
  by simp

lemma reduce_acc:
  "removeLeavingChild_reduce k r acc cs = acc @ removeLeavingChild_reduce k r [] cs"
proof (induction cs arbitrary: r acc)
  case Nil
  show ?case by simp
next
  case (Cons c cs)
  show ?case
  proof (cases "key (element c) = k")
    case True
    then show ?thesis using Cons.IH [of 1 acc] by simp
  next
    case False
    then show ?thesis
      using Cons.IH [of r "acc @ [\<lparr>element = element c, index = index c - r\<rparr>]"]
            Cons.IH [of r "[\<lparr>element = element c, index = index c - r\<rparr>]"]
      by simp
  qed
qed

lemma reduce_after:
  "removeLeavingChild_reduce k 1 [] cs =
     map (\<lambda>c. \<lparr>element = element c, index = index c - 1\<rparr>)
       (filter (\<lambda>c. key (element c) \<noteq> k) cs)"
proof (induction cs)
  case Nil
  show ?case by simp
next
  case (Cons c cs)
  show ?case
    using Cons.IH reduce_acc [of k 1 "[\<lparr>element = element c, index = index c - 1\<rparr>]" cs]
    by simp
qed

lemma reduce_before:
  "removeLeavingChild_reduce k 0 [] cs =
     takeWhile (\<lambda>c. key (element c) \<noteq> k) cs @
     map (\<lambda>c. \<lparr>element = element c, index = index c - 1\<rparr>)
       (filter (\<lambda>c. key (element c) \<noteq> k) (dropWhile (\<lambda>c. key (element c) \<noteq> k) cs))"
proof (induction cs)
  case Nil
  show ?case by simp
next
  case (Cons c cs)
  show ?case
  proof (cases "key (element c) = k")
    case True
    then show ?thesis by (simp add: reduce_after)
  next
    case False
    then show ?thesis
      using Cons.IH reduce_acc [of k 0 "[\<lparr>element = element c, index = index c - 0\<rparr>]" cs]
      by simp
  qed
qed


lemma reduce_shift:
  assumes "sorted_wrt (<) (map index cs)"
    and "find (\<lambda>c. key (element c) = k) cs = Some rm"
  shows "removeLeavingChild_reduce k 0 [] cs =
           map (shift_down (index rm)) (filter (\<lambda>c. key (element c) \<noteq> k) cs)"
  using assms
proof (induction cs)
  case Nil
  then show ?case by simp
next
  case (Cons c cs)
  show ?case
  proof (cases "key (element c) = k")
    case True
    with Cons.prems have rm: "rm = c" by simp
    have "\<forall>x\<in>set cs. index c < index x"
      using Cons.prems(1) by simp
    then have "map (shift_down (index c)) (filter (\<lambda>c. key (element c) \<noteq> k) cs) =
               map (\<lambda>c. \<lparr>element = element c, index = index c - 1\<rparr>)
                 (filter (\<lambda>c. key (element c) \<noteq> k) cs)"
      by (intro map_cong refl) (simp add: shift_down_def)
    with True rm show ?thesis by (simp add: reduce_after)
  next
    case False
    with Cons.prems have f: "find (\<lambda>c. key (element c) = k) cs = Some rm" by simp
    then have "rm \<in> set cs"
      by (auto simp: find_Some_iff)
    with Cons.prems(1) have lt: "index c < index rm" by simp
    have s: "sorted_wrt (<) (map index cs)" using Cons.prems(1) by simp
    show ?thesis
      using False lt Cons.IH [OF s f]
            reduce_acc [of k 0 "[\<lparr>element = element c, index = index c - 0\<rparr>]" cs]
      by (simp add: shift_down_def)
  qed
qed

lemma reduce_absent:
  "k \<notin> set (map (key \<circ> element) cs) \<Longrightarrow> removeLeavingChild_reduce k 0 [] cs = cs"
proof (induction cs)
  case Nil
  then show ?case by simp
next
  case (Cons c cs)
  then show ?case
    using reduce_acc [of k 0 "[\<lparr>element = element c, index = index c - 0\<rparr>]" cs]
    by auto
qed

lemma shift_down_strict:
  assumes "sorted_wrt (<) (map index cs)" and "d \<notin> set (map index cs)"
  shows "sorted_wrt (<) (map index (map (shift_down d) cs))"
  using assms
proof (induction cs)
  case Nil
  then show ?case by simp
next
  case (Cons c cs)
  then have "\<forall>x\<in>set cs. index (shift_down d c) < index (shift_down d x)"
    by (auto simp: shift_down_def)
  with Cons show ?case by simp
qed


lemma removeLeavingChild_shift:
  fixes L :: "'p element_with_index list"
  assumes strict: "sorted_wrt (<) (map index L)"
    and found: "find (\<lambda>c. key (element c) = k) L = Some rm"
  shows "removeLeavingChild k L =
           map (shift_down (index rm)) (filter (\<lambda>c. key (element c) \<noteq> k) L)"
    and "sorted_wrt (<) (map index (removeLeavingChild k L))"
    and "(\<forall>c\<in>set L. 0 \<le> index c \<and> index c < n) \<Longrightarrow>
         (\<forall>c\<in>set (removeLeavingChild k L). 0 \<le> index c \<and> index c < n - 1)"
proof -
  let ?rest = "filter (\<lambda>c. key (element c) \<noteq> k) L"
  show eq: "removeLeavingChild k L = map (shift_down (index rm)) ?rest"
    unfolding removeLeavingChild_def by (rule reduce_shift [OF strict found])
  have rm: "rm \<in> set L" "key (element rm) = k"
    using found by (auto simp: find_Some_iff)
  have dist: "distinct (map index L)"
    using strict by (simp add: strict_sorted_iff)
  have strict_rest: "sorted_wrt (<) (map index ?rest)"
    using strict by (simp add: sorted_wrt_map sorted_wrt_filter)
  have ne: "\<forall>c\<in>set ?rest. index c \<noteq> index rm"
  proof
    fix c assume c: "c \<in> set ?rest"
    then have "c \<in> set L" "c \<noteq> rm" using rm by auto
    then show "index c \<noteq> index rm"
      using dist rm(1) by (auto simp: distinct_map inj_on_def)
  qed
  then have notin: "index rm \<notin> set (map index ?rest)" by auto
  show "sorted_wrt (<) (map index (removeLeavingChild k L))"
    unfolding eq by (rule shift_down_strict [OF strict_rest notin])
  show "\<forall>c\<in>set (removeLeavingChild k L). 0 \<le> index c \<and> index c < n - 1"
    if b: "\<forall>c\<in>set L. 0 \<le> index c \<and> index c < n"
  proof
    fix c assume "c \<in> set (removeLeavingChild k L)"
    then obtain c0 where c0: "c0 \<in> set ?rest" "c = shift_down (index rm) c0"
      unfolding eq by auto
    have "index c0 \<noteq> index rm"
      using ne c0(1) by blast
    moreover have "0 \<le> index c0" "index c0 < n" "0 \<le> index rm" "index rm < n"
      using b c0(1) rm(1) by auto
    ultimately show "0 \<le> index c \<and> index c < n - 1"
      unfolding c0(2) shift_down_def by auto
  qed
qed

text \<open>
  Claim C3. For a registry that is ascending by merged index with pairwise different
  indices, and a key that occurs in it (\<open>removed\<close> is its entry), \<open>removeLeavingChild\<close>
  returns the registry without the entries of that key, in which every remaining entry
  whose merged index was greater than the removed one has it decremented by exactly one
  and every other entry is unchanged. Consequently the indices stay ascending and
  pairwise different, and when they all were slots of a merged output of \<open>n\<close> slots they
  now are slots of one of \<open>n - 1\<close>.
\<close>

theorem removeLeavingChild_correct:
  assumes "sorted (map index registry)"
    and "distinct (map index registry)"
    and "find (\<lambda>c. key (element c) = k) registry = Some removed"
  shows "removeLeavingChild k registry =
           map (\<lambda>c. if index c > index removed
                      then \<lparr>element = element c, index = index c - 1\<rparr> else c)
             (filter (\<lambda>c. key (element c) \<noteq> k) registry)
         \<and> sorted (map index (removeLeavingChild k registry))
         \<and> distinct (map index (removeLeavingChild k registry))
         \<and> ((\<forall>c\<in>set registry. 0 \<le> index c \<and> index c < n) \<longrightarrow>
              (\<forall>c\<in>set (removeLeavingChild k registry). 0 \<le> index c \<and> index c < n - 1))"
proof -
  have strict: "sorted_wrt (<) (map index registry)"
    using assms(1,2) by (simp add: strict_sorted_iff)
  note facts = removeLeavingChild_shift [OF strict assms(3)]
  show ?thesis
    using facts(1) facts(2) facts(3) [of n]
    by (simp add: strict_sorted_iff shift_down_def [abs_def])
qed

lemma removeLeavingItem_agrees:
  assumes "sorted (map index registry)" and "distinct (map index registry)"
  shows "removeLeavingItem k registry = removeLeavingChild k registry"
proof (cases "find (\<lambda>c. key (element c) = k) registry")
  case None
  then have "k \<notin> set (map (key \<circ> element) registry)"
    by (auto simp: find_None_iff)
  then show ?thesis
    using None by (simp add: removeLeavingItem_def removeLeavingChild_def reduce_absent)
next
  case (Some rm)
  have strict: "sorted_wrt (<) (map index registry)"
    using assms by (simp add: strict_sorted_iff)
  show ?thesis
    using Some reduce_shift [OF strict Some]
    by (simp add: removeLeavingItem_def removeLeavingChild_def shift_down_def [abs_def])
qed

theorem removeLeavingChild_correct_witness:
  "removeLeavingChild (Some ''b'')
     [\<lparr>element = \<lparr>key = Some ''a'', className = None, payload = ()\<rparr>, index = 0\<rparr>,
      \<lparr>element = \<lparr>key = Some ''b'', className = None, payload = ()\<rparr>, index = 2\<rparr>,
      \<lparr>element = \<lparr>key = Some ''c'', className = None, payload = ()\<rparr>, index = 3\<rparr>]
   = [\<lparr>element = \<lparr>key = Some ''a'', className = None, payload = ()\<rparr>, index = 0\<rparr>,
      \<lparr>element = \<lparr>key = Some ''c'', className = None, payload = ()\<rparr>, index = 2\<rparr>]"
  using removeLeavingChild_correct
    [of "[\<lparr>element = \<lparr>key = Some ''a'', className = None, payload = ()\<rparr>, index = 0\<rparr>,
      \<lparr>element = \<lparr>key = Some ''b'', className = None, payload = ()\<rparr>, index = 2\<rparr>,
      \<lparr>element = \<lparr>key = Some ''c'', className = None, payload = ()\<rparr>, index = 3\<rparr>]"
     "Some ''b''"
     "\<lparr>element = \<lparr>key = Some ''b'', className = None, payload = ()\<rparr>, index = 2\<rparr>" 4]
  by simp

section \<open>Reconciler: proofs\<close>

lemma fill_slots_length:
  "fill_slots f slots cs = Inr out \<Longrightarrow> length out = length slots"
  by (induction f slots cs arbitrary: out rule: fill_slots.induct)
     (auto split: sum.splits)

lemma fill_gaps_fill_slots:
  assumes "n \<le> length arr" and "idx \<le> n"
  shows "fill_gaps tn w cs en ina n idx ci arr =
           (case fill_slots (render_child tn w en ina) (take (n - idx) (drop idx arr)) (drop ci cs) of
              Inl e \<Rightarrow> Inl e
            | Inr mid \<Rightarrow> Inr (take idx arr @ mid @ drop n arr))"
  using assms
proof (induction tn w cs en ina n idx ci arr rule: fill_gaps.induct)
  case (1 tn w cs en ina n idx ci arr)
  show ?case
  proof (cases "idx < n")
    case False
    with "1.prems" have "idx = n" by simp
    then show ?thesis
      by (subst fill_gaps.simps) simp
  next
    case True
    with "1.prems" have lt: "idx < length arr" by simp
    have slots: "take (n - idx) (drop idx arr) =
                   arr ! idx # take (n - Suc idx) (drop (Suc idx) arr)"
      using True lt by (metis Cons_nth_drop_Suc Suc_diff_Suc take_Suc_Cons)
    show ?thesis
    proof (cases "arr ! idx")
      case (Some r)
      have ih: "fill_gaps tn w cs en ina n (idx + 1) ci arr =
           (case fill_slots (render_child tn w en ina)
                   (take (n - (idx + 1)) (drop (idx + 1) arr)) (drop ci cs) of
              Inl e \<Rightarrow> Inl e
            | Inr mid \<Rightarrow> Inr (take (idx + 1) arr @ mid @ drop n arr))"
      proof -
        have g: "js_get arr idx \<noteq> None" using Some lt by (simp add: js_get_def)
        have le: "idx + 1 \<le> n" using True by simp
        show ?thesis
          by (rule "1.IH"(2) [OF True g "1.prems"(1) le])
      qed
      have unfold: "fill_gaps tn w cs en ina n idx ci arr =
                fill_gaps tn w cs en ina n (idx + 1) ci arr"
        using True lt Some
        by (subst fill_gaps.simps) (simp add: js_get_def)
      have tk: "take (idx + 1) arr = take idx arr @ [Some r]"
        using lt Some by (simp add: take_Suc_conv_app_nth)
      show ?thesis
        unfolding unfold ih tk slots Some
        by (simp split: sum.splits)
    next
      case None
      show ?thesis
      proof (cases "ci < length cs")
        case False
        then show ?thesis
          using True lt None slots
          by (subst fill_gaps.simps) (simp add: js_get_def)
      next
        case ci: True
        let ?v = "render_child tn w en ina (cs ! ci)"
        let ?arr' = "js_set arr (int idx) ?v"
        have arr': "?arr' = arr[idx := Some ?v]"
          using lt by (simp add: js_set_def)
        have ih: "fill_gaps tn w cs en ina n (idx + 1) (ci + 1) ?arr' =
           (case fill_slots (render_child tn w en ina)
                   (take (n - (idx + 1)) (drop (idx + 1) ?arr')) (drop (ci + 1) cs) of
              Inl e \<Rightarrow> Inl e
            | Inr mid \<Rightarrow> Inr (take (idx + 1) ?arr' @ mid @ drop n ?arr'))"
        proof -
          have g: "js_get arr idx = None" using None lt by (simp add: js_get_def)
          have v: "cloneWithClassName (cs ! ci)
                     (childClassName tn (key (cs ! ci) \<in> en) (key (cs ! ci) \<in> ina)) w = ?v"
            by (simp add: render_child_def)
          have len: "n \<le> length ?arr'" using "1.prems" by (simp add: arr')
          have le: "idx + 1 \<le> n" using True by simp
          show ?thesis
            by (rule "1.IH"(1) [OF True g ci refl refl refl, unfolded v, OF len le])
        qed
        have tk: "take (idx + 1) ?arr' = take idx arr @ [Some ?v]"
          using lt by (simp add: arr' take_Suc_conv_app_nth)
        have dr: "drop (idx + 1) ?arr' = drop (idx + 1) arr" "drop n ?arr' = drop n arr"
          using True by (simp_all add: arr')
        have cs: "drop ci cs = cs ! ci # drop (ci + 1) cs"
          using ci by (simp add: Cons_nth_drop_Suc)
        have unfold: "fill_gaps tn w cs en ina n idx ci arr =
                fill_gaps tn w cs en ina n (idx + 1) (ci + 1) ?arr'"
          using True lt None ci
          by (subst fill_gaps.simps) (simp add: js_get_def render_child_def Let_def)
        show ?thesis
          unfolding unfold ih tk dr slots None cs
          by (simp split: sum.splits)
      qed
    qed
  qed
qed


lemma js_set_in_range:
  "0 \<le> i \<Longrightarrow> i < int (length arr) \<Longrightarrow> js_set arr i v = arr[nat i := Some v]"
  by (simp add: js_set_def nat_less_iff)

lemma place_leaving_Cons:
  "place_leaving tn w ina (c # L) arr =
     place_leaving tn w ina L (js_set arr (index c) (render_leaving tn w ina c))"
  by (simp add: place_leaving_def render_leaving_def)

lemma place_leaving_Nil [simp]: "place_leaving tn w ina [] arr = arr"
  by (simp add: place_leaving_def)

lemma place_leaving_length:
  "\<forall>c\<in>set L. 0 \<le> index c \<and> index c < int (length arr) \<Longrightarrow>
   length (place_leaving tn w ina L arr) = length arr"
proof (induction L arbitrary: arr)
  case Nil
  show ?case by simp
next
  case (Cons c L)
  have "length (js_set arr (index c) (render_leaving tn w ina c)) = length arr"
    using Cons.prems by (simp add: js_set_in_range)
  with Cons show ?case
    by (simp add: place_leaving_Cons)
qed

lemma place_leaving_nth:
  assumes "\<forall>c\<in>set L. 0 \<le> index c \<and> index c < int (length arr)"
    and "distinct (map index L)" and "i < length arr"
  shows "place_leaving tn w ina L arr ! i =
           (case find (\<lambda>c. index c = int i) L of
              None \<Rightarrow> arr ! i
            | Some c \<Rightarrow> Some (render_leaving tn w ina c))"
  using assms
proof (induction L arbitrary: arr)
  case Nil
  show ?case by simp
next
  case (Cons c L)
  let ?arr' = "js_set arr (index c) (render_leaving tn w ina c)"
  have arr': "?arr' = arr[nat (index c) := Some (render_leaving tn w ina c)]"
    using Cons.prems(1) by (simp add: js_set_in_range)
  have ih: "place_leaving tn w ina L ?arr' ! i =
           (case find (\<lambda>c. index c = int i) L of
              None \<Rightarrow> ?arr' ! i
            | Some c \<Rightarrow> Some (render_leaving tn w ina c))"
    using Cons.prems by (intro Cons.IH) (simp_all add: arr')
  have nth': "?arr' ! i = (if index c = int i then Some (render_leaving tn w ina c) else arr ! i)"
    using Cons.prems(1,3) by (auto simp: arr')
  show ?case
  proof (cases "index c = int i")
    case True
    have "find (\<lambda>c. index c = int i) L = None"
      using Cons.prems(2) True by (force simp: find_None_iff)
    then show ?thesis
      using True ih nth' by (simp add: place_leaving_Cons)
  next
    case False
    then show ?thesis
      using ih nth' by (simp add: place_leaving_Cons split: option.splits)
  qed
qed

lemma fill_slots_ok:
  assumes "length (filter (\<lambda>s. s = None) slots) = length cs"
  shows "\<exists>out. fill_slots f slots cs = Inr out \<and> length out = length slots
           \<and> (\<forall>i<length slots. out ! i \<noteq> None)
           \<and> (\<forall>i<length slots. slots ! i \<noteq> None \<longrightarrow> out ! i = slots ! i)
           \<and> map snd (filter (\<lambda>p. fst p = None) (zip slots out)) = map (\<lambda>c. Some (f c)) cs"
  using assms
proof (induction f slots cs rule: fill_slots.induct)
  case (1 f cs)
  then show ?case by simp
next
  case (2 f r slots cs)
  then obtain out where out: "fill_slots f slots cs = Inr out" "length out = length slots"
     "\<forall>i<length slots. out ! i \<noteq> None"
     "\<forall>i<length slots. slots ! i \<noteq> None \<longrightarrow> out ! i = slots ! i"
     "map snd (filter (\<lambda>p. fst p = None) (zip slots out)) = map (\<lambda>c. Some (f c)) cs"
    by auto
  have "\<forall>i<length (Some r # slots). (Some r # out) ! i \<noteq> None"
    using out(3) by (auto simp: nth_Cons split: nat.splits)
  moreover have "\<forall>i<length (Some r # slots).
       (Some r # slots) ! i \<noteq> None \<longrightarrow> (Some r # out) ! i = (Some r # slots) ! i"
    using out(4) by (auto simp: nth_Cons split: nat.splits)
  ultimately show ?case
    using out(1,2,5) by simp
next
  case (3 f slots)
  then show ?case by simp
next
  case (4 f slots c cs)
  then obtain out where out: "fill_slots f slots cs = Inr out" "length out = length slots"
     "\<forall>i<length slots. out ! i \<noteq> None"
     "\<forall>i<length slots. slots ! i \<noteq> None \<longrightarrow> out ! i = slots ! i"
     "map snd (filter (\<lambda>p. fst p = None) (zip slots out)) = map (\<lambda>c. Some (f c)) cs"
    by auto
  have "\<forall>i<length (None # slots). (Some (f c) # out) ! i \<noteq> None"
    using out(3) by (auto simp: nth_Cons split: nat.splits)
  moreover have "\<forall>i<length (None # slots).
       (None # slots) ! i \<noteq> None \<longrightarrow> (Some (f c) # out) ! i = (None # slots) ! i"
    using out(4) by (auto simp: nth_Cons split: nat.splits)
  ultimately show ?case
    using out(1,2,5) by simp
qed

lemma fill_slots_short:
  "length cs < length (filter (\<lambda>s. s = None) slots) \<Longrightarrow> fill_slots f slots cs = Inl TypeError"
  by (induction f slots cs rule: fill_slots.induct) (auto split: sum.splits)


lemma free_slots_count:
  assumes "distinct (map index L)"
    and "\<forall>c\<in>set L. 0 \<le> index c \<and> index c < int n"
  shows "length (filter (\<lambda>i. int i \<notin> index ` set L) [0..<n]) + length L = n"
proof -
  let ?I = "index ` set L"
  have cardI: "card ?I = length L"
    using assms(1) distinct_card [of "map index L"] by simp
  have inj: "inj_on nat ?I"
  proof (rule inj_onI)
    fix x y assume "x \<in> ?I" "y \<in> ?I" "nat x = nat y"
    moreover from this have "0 \<le> x" "0 \<le> y" using assms(2) by auto
    ultimately show "x = y" by simp
  qed
  have img: "nat ` ?I = {i. i < n \<and> int i \<in> ?I}"
  proof (intro set_eqI iffI)
    fix i assume "i \<in> nat ` ?I"
    then obtain c where c: "c \<in> set L" "i = nat (index c)" by auto
    then have "0 \<le> index c" "index c < int n" using assms(2) by auto
    then show "i \<in> {i. i < n \<and> int i \<in> ?I}"
      using c by (auto simp: nat_less_iff)
  next
    fix i assume "i \<in> {i. i < n \<and> int i \<in> ?I}"
    then obtain c where c: "c \<in> set L" "int i = index c" by auto
    then have "i = nat (index c)" by (metis nat_int)
    then show "i \<in> nat ` ?I" using c(1) by blast
  qed
  have cin: "card {i. i < n \<and> int i \<in> ?I} = length L"
    using cardI card_image [OF inj] img by simp
  let ?A = "{i. i < n \<and> int i \<notin> ?I}"
  let ?B = "{i. i < n \<and> int i \<in> ?I}"
  have un: "?A \<union> ?B = {..<n}" by auto
  have disj: "?A \<inter> ?B = {}" by auto
  have fin: "finite ?A" "finite ?B" by simp_all
  have "card (?A \<union> ?B) = card ?A + card ?B"
    by (rule card_Un_disjoint [OF fin disj])
  then have "card ?A + length L = n"
    by (simp add: un cin)
  moreover have "length (filter (\<lambda>i. int i \<notin> ?I) [0..<n]) = card {i. i < n \<and> int i \<notin> ?I}"
  proof -
    have "{x. int x \<notin> ?I} \<inter> set [0..<n] = ?A" by auto
    then show ?thesis
      using distinct_length_filter [of "[0..<n]" "\<lambda>i. int i \<notin> ?I"] by simp
  qed
  ultimately show ?thesis by simp
qed

lemma childrenToRender_char:
  assumes d: "distinct (map index L)"
    and r: "\<forall>c\<in>set L. 0 \<le> index c \<and> index c < int (length cur + length L)"
  shows "\<exists>out. childrenToRender tn w cur L en ina = Inr out
           \<and> length out = length cur + length L
           \<and> (\<forall>i<length out. out ! i \<noteq> None)
           \<and> (\<forall>c\<in>set L. out ! nat (index c) = Some (render_leaving tn w ina c))
           \<and> map ((!) out) (filter (\<lambda>i. int i \<notin> index ` set L) [0..<length cur + length L])
               = map (\<lambda>c. Some (render_child tn w en ina c)) cur"
proof -
  let ?n = "length cur + length L"
  let ?arr = "place_leaving tn w ina L (replicate ?n None)"
  let ?free = "\<lambda>i. int i \<notin> index ` set L"
  have len: "length ?arr = ?n"
    using r by (simp add: place_leaving_length)
  have nth: "?arr ! i = (case find (\<lambda>c. index c = int i) L of
                           None \<Rightarrow> None
                         | Some c \<Rightarrow> Some (render_leaving tn w ina c))" if "i < ?n" for i
    using place_leaving_nth [of L "replicate ?n None" i tn w ina] r d that
    by (simp split: option.splits)
  have hole: "?arr ! i = None \<longleftrightarrow> ?free i" if "i < ?n" for i
  proof (cases "find (\<lambda>c. index c = int i) L")
    case None
    then have "?free i" by (force simp: find_None_iff)
    then show ?thesis using nth [OF that] None by simp
  next
    case (Some c)
    then have "c \<in> set L" "index c = int i" by (auto simp: find_Some_iff)
    then have "\<not> ?free i" by force
    then show ?thesis using nth [OF that] Some by simp
  qed
  have at: "?arr ! nat (index c) = Some (render_leaving tn w ina c)" if c: "c \<in> set L" for c
  proof -
    have i: "nat (index c) < ?n" "int (nat (index c)) = index c"
      using r c by (auto simp: nat_less_iff)
    obtain c' where f: "find (\<lambda>x. index x = index c) L = Some c'"
      using c by (cases "find (\<lambda>x. index x = index c) L") (auto simp: find_None_iff)
    then have "c' \<in> set L" "index c' = index c"
      by (auto simp: find_Some_iff)
    then have "c' = c"
      using d c by (auto simp: distinct_map inj_on_def)
    then show ?thesis using nth [OF i(1)] f i(2) by simp
  qed
  have zip_idx: "zip xs ys = map (\<lambda>i. (xs ! i, ys ! i)) [0..<length xs]"
    if "length xs = length ys" for xs ys :: "'a rendered option list"
    using that by (intro nth_equalityI) simp_all
  have holes: "filter (\<lambda>s. s = None) ?arr = map ((!) ?arr) (filter ?free [0..<?n])"
  proof -
    have "filter (\<lambda>s. s = None) ?arr = filter (\<lambda>s. s = None) (map ((!) ?arr) [0..<?n])"
      using len by (metis map_nth)
    also have "\<dots> = map ((!) ?arr) (filter (\<lambda>i. ?arr ! i = None) [0..<?n])"
      by (simp add: filter_map comp_def)
    also have "filter (\<lambda>i. ?arr ! i = None) [0..<?n] = filter ?free [0..<?n]"
      by (rule filter_cong) (simp_all add: hole)
    finally show ?thesis .
  qed
  have count: "length (filter (\<lambda>s. s = None) ?arr) = length cur"
    using free_slots_count [OF d r] by (simp add: holes)
  obtain out where out: "fill_slots (render_child tn w en ina) ?arr cur = Inr out"
      "length out = length ?arr"
      "\<forall>i<length ?arr. out ! i \<noteq> None"
      "\<forall>i<length ?arr. ?arr ! i \<noteq> None \<longrightarrow> out ! i = ?arr ! i"
      "map snd (filter (\<lambda>p. fst p = None) (zip ?arr out))
         = map (\<lambda>c. Some (render_child tn w en ina c)) cur"
    using fill_slots_ok [OF count, of "render_child tn w en ina"] by blast
  have run: "childrenToRender tn w cur L en ina = Inr out"
    using fill_gaps_fill_slots [of ?n ?arr 0 tn w cur en ina 0] len out(1)
    by (simp add: childrenToRender_def Let_def)
  have leaving: "\<forall>c\<in>set L. out ! nat (index c) = Some (render_leaving tn w ina c)"
  proof
    fix c assume c: "c \<in> set L"
    have "nat (index c) < ?n" using r c by (auto simp: nat_less_iff)
    then show "out ! nat (index c) = Some (render_leaving tn w ina c)"
      using out(4) at [OF c] len by simp
  qed
  have "map snd (filter (\<lambda>p. fst p = None) (zip ?arr out))
          = map ((!) out) (filter (\<lambda>i. ?arr ! i = None) [0..<?n])"
    using out(2) len by (simp add: zip_idx filter_map comp_def)
  also have "filter (\<lambda>i. ?arr ! i = None) [0..<?n] = filter ?free [0..<?n]"
    by (rule filter_cong) (simp_all add: hole)
  finally have present: "map ((!) out) (filter ?free [0..<?n])
                           = map (\<lambda>c. Some (render_child tn w en ina c)) cur"
    using out(5) by simp
  show ?thesis
    using run out(2,3) len leaving present by simp
qed


section \<open>The registry under merging\<close>

lemma spec_offset_ge: "p \<le> spec_offset i p ls"
proof (induction ls arbitrary: p)
  case Nil
  show ?case by simp
next
  case (Cons m ms)
  show ?case using Cons [of p] Cons [of "p + 1"] by simp
qed

lemma spec_offset_le: "spec_offset i p ls \<le> p + int (length ls)"
proof (induction ls arbitrary: p)
  case Nil
  show ?case by simp
next
  case (Cons m ms)
  show ?case using Cons [of p] Cons [of "p + 1"] by simp
qed

lemma spec_offset_all_above:
  "\<forall>x\<in>set ls. i + p < x \<Longrightarrow> spec_offset i p ls = p"
  by (induction ls) simp_all

lemma spec_offset_fresh:
  "sorted_wrt (<) ls \<Longrightarrow> i + spec_offset i p ls \<notin> set ls"
proof (induction ls arbitrary: p)
  case Nil
  show ?case by simp
next
  case (Cons m ms)
  have above: "\<forall>x\<in>set ms. m < x" and s: "sorted_wrt (<) ms"
    using Cons.prems by simp_all
  show ?case
  proof (cases "m \<le> i + p")
    case True
    have "i + spec_offset i (p + 1) ms \<notin> set ms"
      by (rule Cons.IH [OF s])
    moreover have "p + 1 \<le> spec_offset i (p + 1) ms"
      by (rule spec_offset_ge)
    ultimately show ?thesis using True by auto
  next
    case False
    then have "\<forall>x\<in>set ms. i + p < x" using above by auto
    then have "spec_offset i p ms = p" by (rule spec_offset_all_above)
    then show ?thesis using False above by auto
  qed
qed

lemma spec_offset_mono:
  "sorted_wrt (<) ls \<Longrightarrow> i \<le> j \<Longrightarrow> p \<le> q \<Longrightarrow> spec_offset i p ls \<le> spec_offset j q ls"
proof (induction ls arbitrary: p q)
  case Nil
  then show ?case by simp
next
  case (Cons m ms)
  have above: "\<forall>x\<in>set ms. m < x" and s: "sorted_wrt (<) ms"
    using Cons.prems by simp_all
  show ?case
  proof (cases "m \<le> i + p")
    case True
    then have "m \<le> j + q" using Cons.prems by simp
    then show ?thesis
      using True Cons.IH [OF s Cons.prems(2), of "p + 1" "q + 1"] Cons.prems(3) by simp
  next
    case False
    then have "\<forall>x\<in>set ms. i + p < x" using above by auto
    then have "spec_offset i p ms = p" by (rule spec_offset_all_above)
    moreover have "q \<le> spec_offset j q (m # ms)" by (rule spec_offset_ge)
    ultimately show ?thesis using False Cons.prems(3) by simp
  qed
qed


lemma indexPush_bounds: "0 \<le> indexPush L i" "indexPush L i \<le> int (length L)"
  using spec_offset_ge [of 0 i "map index L"] spec_offset_le [of i 0 "map index L"]
  by (simp_all add: indexPush_spec_offset)

lemma pushed_strict:
  fixes L R :: "'p element_with_index list"
  assumes "sorted_wrt (<) (map index L)" and "sorted_wrt (<) (map index R)"
  shows "sorted_wrt (<) (map (\<lambda>r. index r + indexPush L (index r)) R)"
proof -
  have "index a + indexPush L (index a) < index b + indexPush L (index b)"
    if "index a < index b" for a b :: "'p element_with_index"
    using spec_offset_mono [OF assms(1), of "index a" "index b" 0 0] that
    by (simp add: indexPush_spec_offset)
  note mono = this
  have "sorted_wrt (\<lambda>a b. index a < index b) R"
    using assms(2) by (simp add: sorted_wrt_map)
  then have "sorted_wrt (\<lambda>a b. index a + indexPush L (index a)
                           < index b + indexPush L (index b)) R"
    by (rule sorted_wrt_mono_rel [rotated]) (blast intro: mono)
  then show ?thesis
    by (simp add: sorted_wrt_map)
qed

lemma pushed_fresh:
  fixes L :: "'p element_with_index list" and r :: "'p element_with_index"
  assumes "sorted_wrt (<) (map index L)"
  shows "index r + indexPush L (index r) \<notin> index ` set L"
  using spec_offset_fresh [OF assms, of "index r" 0] by (simp add: indexPush_spec_offset)

lemma map_index_merge:
  "mset (map index (mergeInRemovedChildren R L)) =
     mset (map index L) + mset (map (\<lambda>r. index r + indexPush L (index r)) R)"
  by (simp add: mergeInRemovedChildren_def multiset.map_comp comp_def)

lemma map_key_merge:
  "mset (map (\<lambda>c. key (element c)) (mergeInRemovedChildren R L)) =
     mset (map (\<lambda>c. key (element c)) L) + mset (map (\<lambda>c. key (element c)) R)"
  by (simp add: mergeInRemovedChildren_def multiset.map_comp comp_def)

lemma length_merge [simp]: "length (mergeInRemovedChildren R L) = length L + length R"
  by (simp add: mergeInRemovedChildren_def)

lemma merge_strict:
  fixes L R :: "'p element_with_index list"
  assumes L: "sorted_wrt (<) (map index L)" and R: "sorted_wrt (<) (map index R)"
  shows "sorted_wrt (<) (map index (mergeInRemovedChildren R L))"
proof -
  let ?new = "map (\<lambda>r. index r + indexPush L (index r)) R"
  have "distinct (map index L)" "distinct ?new"
    using L pushed_strict [OF L R] by (simp_all add: strict_sorted_iff)
  moreover have "set (map index L) \<inter> set ?new = {}"
  proof -
    have "v \<notin> index ` set L" if "v \<in> set ?new" for v
    proof -
      from that obtain r :: "'p element_with_index"
        where "v = index r + indexPush L (index r)" by auto
      then show ?thesis using pushed_fresh [OF L, of r] by simp
    qed
    then show ?thesis by auto
  qed
  ultimately have "distinct (map index L @ ?new)" by simp
  moreover have "mset (map index (mergeInRemovedChildren R L)) = mset (map index L @ ?new)"
    unfolding map_index_merge by simp
  ultimately have "distinct (map index (mergeInRemovedChildren R L))"
    by (metis mset_eq_imp_distinct_iff)
  moreover have "sorted (map index (mergeInRemovedChildren R L))"
    by (simp add: mergeInRemovedChildren_def)
  ultimately show ?thesis by (simp add: strict_sorted_iff)
qed

lemma merge_bounds:
  fixes L R :: "'p element_with_index list"
  assumes "\<forall>c\<in>set L. 0 \<le> index c \<and> index c < int (m + length L)"
    and "\<forall>r\<in>set R. 0 \<le> index r \<and> index r < int m"
    and "c \<in> set (mergeInRemovedChildren R L)"
  shows "0 \<le> index c \<and> index c < int (m + length L)"
proof -
  have "index c \<in># mset (map index (mergeInRemovedChildren R L))"
    using assms(3) by simp
  then have "index c \<in> index ` set L \<or> index c \<in> (\<lambda>r. index r + indexPush L (index r)) ` set R"
    unfolding map_index_merge by auto
  then show ?thesis
  proof
    assume "index c \<in> index ` set L"
    then show ?thesis using assms(1) by auto
  next
    assume "index c \<in> (\<lambda>r. index r + indexPush L (index r)) ` set R"
    then obtain r :: "'p element_with_index"
      where r: "r \<in> set R" "index c = index r + indexPush L (index r)" by auto
    then show ?thesis
      using assms(2) indexPush_bounds [of L "index r"] by auto
  qed
qed

lemma merge_sorted_id:
  "sorted_wrt (<) (map index L) \<Longrightarrow> mergeInRemovedChildren [] L = L"
  by (simp add: mergeInRemovedChildren_def strict_sorted_iff sort_key_id_if_sorted)

text \<open>Facts about the difference of two collections.\<close>

lemma diff_keys:
  "map (\<lambda>c. key (element c)) (contents (elementDiff xs ys))
     = filter (\<lambda>k. k \<notin> key ` set ys) (map key xs)"
proof -
  have "map (\<lambda>c. key (element c)) (filter (\<lambda>c. key (element c) \<notin> key ` set ys) (with_index xs))
          = filter (\<lambda>k. k \<notin> key ` set ys) (map (\<lambda>c. key (element c)) (with_index xs))"
    by (simp add: filter_map comp_def)
  moreover have "map (\<lambda>c. key (element c)) (with_index xs) = map key xs"
    by (rule nth_equalityI) (simp_all add: with_index_nth)
  ultimately show ?thesis by (simp add: contents_elementDiff)
qed

lemma diff_strict: "sorted_wrt (<) (map index (contents (elementDiff xs ys)))"
proof -
  have "sorted_wrt (<) (map index (with_index xs))"
    by (simp add: map_index_with_index sorted_wrt_map)
  then show ?thesis
    by (simp add: contents_elementDiff sorted_wrt_map sorted_wrt_filter)
qed

lemma diff_bounds:
  "r \<in> set (contents (elementDiff xs ys)) \<Longrightarrow> 0 \<le> index r \<and> index r < int (length xs)"
  by (auto simp: contents_elementDiff with_index_nth)

section \<open>The timer table\<close>

lemma clearLiveTimeout_eq:
  "clearLiveTimeout k s =
     s\<lparr>timers := (case liveTimeouts s k of
                      None \<Rightarrow> timers s
                    | Some h \<Rightarrow> if h \<noteq> 0 then (timers s)(h := None) else timers s)\<rparr>"
  by (simp add: clearLiveTimeout_def clearTimeout_def split: option.splits)

lemma scheduleSettle_eq:
  "scheduleSettleEnteringChild k s =
     s\<lparr>timers := (timers (clearLiveTimeout k s))
                    (next_timer s \<mapsto> (Settle k, transitionEnterTimeout (props s))),
       next_timer := next_timer s + 1,
       liveTimeouts := (liveTimeouts s)(k \<mapsto> next_timer s)\<rparr>"
  by (simp add: scheduleSettleEnteringChild_def setTimeout_def clearLiveTimeout_eq Let_def)

lemma scheduleRemove_eq:
  "scheduleRemoveLeavingChild k s =
     s\<lparr>timers := (timers (clearLiveTimeout k s))
                    (next_timer s \<mapsto> (Remove k, transitionLeaveTimeout (props s))),
       next_timer := next_timer s + 1,
       liveTimeouts := (liveTimeouts s)(k \<mapsto> next_timer s)\<rparr>"
  by (simp add: scheduleRemoveLeavingChild_def setTimeout_def clearLiveTimeout_eq Let_def)

lemma timers_cleared:
  assumes "timers_inv s"
  shows "timers (clearLiveTimeout k s) h =
           (if liveTimeouts s k = Some h then None else timers s h)"
proof (cases "liveTimeouts s k")
  case None
  then show ?thesis by (simp add: clearLiveTimeout_eq)
next
  case (Some h0)
  then have "0 < h0" using assms by (auto simp: timers_inv_def)
  then show ?thesis using Some by (simp add: clearLiveTimeout_eq)
qed

lemma timers_inv_schedule:
  assumes inv: "timers_inv s" and cb: "callback_key cb = k"
  shows "timers_inv
           (s\<lparr>timers := (timers (clearLiveTimeout k s))(next_timer s \<mapsto> (cb, d)),
              next_timer := next_timer s + 1,
              liveTimeouts := (liveTimeouts s)(k \<mapsto> next_timer s)\<rparr>)"
proof -
  have pos: "0 < next_timer s"
    and pend: "\<And>h c e. timers s h = Some (c, e) \<Longrightarrow> liveTimeouts s (callback_key c) = Some h"
    and rng: "\<And>k h. liveTimeouts s k = Some h \<Longrightarrow> 0 < h \<and> h < next_timer s"
    and inj: "\<And>k k' h. liveTimeouts s k = Some h \<Longrightarrow> liveTimeouts s k' = Some h \<Longrightarrow> k = k'"
    using inv unfolding timers_inv_def by blast+
  let ?s' = "s\<lparr>timers := (timers (clearLiveTimeout k s))(next_timer s \<mapsto> (cb, d)),
              next_timer := next_timer s + 1,
              liveTimeouts := (liveTimeouts s)(k \<mapsto> next_timer s)\<rparr>"
  have a: "0 < next_timer ?s'" by simp
  have b: "liveTimeouts ?s' (callback_key c) = Some h" if "timers ?s' h = Some (c, e)" for h c e
  proof -
    from that have "(h = next_timer s \<and> c = cb) \<or>
        (h \<noteq> next_timer s \<and> liveTimeouts s k \<noteq> Some h \<and> timers s h = Some (c, e))"
      by (auto simp: timers_cleared [OF inv] split: if_splits)
    then show ?thesis
      using cb pend [of h c e] by auto
  qed
  have c: "0 < h \<and> h < next_timer ?s'" if "liveTimeouts ?s' k' = Some h" for k' h
  proof -
    from that have "h = next_timer s \<or> liveTimeouts s k' = Some h"
      by (auto split: if_splits)
    then show ?thesis
      using pos rng [of k' h] by auto
  qed
  have d: "k1 = k2" if "liveTimeouts ?s' k1 = Some h \<and> liveTimeouts ?s' k2 = Some h" for k1 k2 h
    using that rng [of k1 h] rng [of k2 h] inj [of k1 h k2]
    by (auto split: if_splits)
  show ?thesis
    unfolding timers_inv_def using a b c d by blast
qed

lemma timers_inv_scheduleSettle:
  "timers_inv s \<Longrightarrow> timers_inv (scheduleSettleEnteringChild k s)"
  unfolding scheduleSettle_eq by (rule timers_inv_schedule) simp_all

lemma timers_inv_scheduleRemove:
  "timers_inv s \<Longrightarrow> timers_inv (scheduleRemoveLeavingChild k s)"
  unfolding scheduleRemove_eq by (rule timers_inv_schedule) simp_all


lemma timers_inv_cong:
  "timers t = timers s \<Longrightarrow> next_timer t = next_timer s \<Longrightarrow> liveTimeouts t = liveTimeouts s
     \<Longrightarrow> timers_inv t = timers_inv s"
  by (simp add: timers_inv_def)

lemma timers_inv_drop:
  "timers_inv s \<Longrightarrow> timers_inv (s\<lparr>timers := (timers s)(h := None)\<rparr>)"
  by (simp add: timers_inv_def)

lemma schedule_activation_fields [simp]:
  "props (schedule_activation s) = props s"
  "oldChildren (schedule_activation s) = oldChildren s"
  "leavingChildren (schedule_activation s) = leavingChildren s"
  "enteringChildren (schedule_activation s) = enteringChildren s"
  "inactiveChildren (schedule_activation s) = inactiveChildren s"
  "timers (schedule_activation s) = timers s"
  "next_timer (schedule_activation s) = next_timer s"
  "liveTimeouts (schedule_activation s) = liveTimeouts s"
  by (simp_all add: schedule_activation_def requestAnimationFrame_def Let_def)

lemma timers_inv_activation [simp]: "timers_inv (schedule_activation s) = timers_inv s"
  by (rule timers_inv_cong) simp_all

lemma fold_remove_fields [simp]:
  "props (foldl (\<lambda>st c. scheduleRemoveLeavingChild (key (element c)) st) s cs) = props s"
  "oldChildren (foldl (\<lambda>st c. scheduleRemoveLeavingChild (key (element c)) st) s cs) = oldChildren s"
  "leavingChildren (foldl (\<lambda>st c. scheduleRemoveLeavingChild (key (element c)) st) s cs)
     = leavingChildren s"
  "enteringChildren (foldl (\<lambda>st c. scheduleRemoveLeavingChild (key (element c)) st) s cs)
     = enteringChildren s"
  "inactiveChildren (foldl (\<lambda>st c. scheduleRemoveLeavingChild (key (element c)) st) s cs)
     = inactiveChildren s"
  by (induction cs arbitrary: s; simp add: scheduleRemove_eq)+

lemma fold_settle_fields [simp]:
  "props (foldl (\<lambda>st c. scheduleSettleEnteringChild (key (element c))
                   (st\<lparr>enteringChildren := insert (key (element c)) (enteringChildren st)\<rparr>)) s cs)
     = props s"
  "oldChildren (foldl (\<lambda>st c. scheduleSettleEnteringChild (key (element c))
                   (st\<lparr>enteringChildren := insert (key (element c)) (enteringChildren st)\<rparr>)) s cs)
     = oldChildren s"
  "leavingChildren (foldl (\<lambda>st c. scheduleSettleEnteringChild (key (element c))
                   (st\<lparr>enteringChildren := insert (key (element c)) (enteringChildren st)\<rparr>)) s cs)
     = leavingChildren s"
  "inactiveChildren (foldl (\<lambda>st c. scheduleSettleEnteringChild (key (element c))
                   (st\<lparr>enteringChildren := insert (key (element c)) (enteringChildren st)\<rparr>)) s cs)
     = inactiveChildren s"
  by (induction cs arbitrary: s; simp add: scheduleSettle_eq)+

lemma fold_settle_entering:
  "enteringChildren (foldl (\<lambda>st c. scheduleSettleEnteringChild (key (element c))
                   (st\<lparr>enteringChildren := insert (key (element c)) (enteringChildren st)\<rparr>)) s cs)
     = enteringChildren s \<union> (\<lambda>c. key (element c)) ` set cs"
  by (induction cs arbitrary: s) (auto simp: scheduleSettle_eq)

lemma timers_inv_fold_remove:
  "timers_inv s \<Longrightarrow>
   timers_inv (foldl (\<lambda>st c. scheduleRemoveLeavingChild (key (element c)) st) s cs)"
  by (induction cs arbitrary: s) (simp_all add: timers_inv_scheduleRemove)

lemma timers_inv_entering [simp]:
  "timers_inv (s\<lparr>enteringChildren := x\<rparr>) = timers_inv s"
  "timers_inv (s\<lparr>leavingChildren := y\<rparr>) = timers_inv s"
  "timers_inv (s\<lparr>inactiveChildren := z\<rparr>) = timers_inv s"
  "timers_inv (s\<lparr>oldChildren := w\<rparr>) = timers_inv s"
  by (simp_all add: timers_inv_def)

lemma timers_inv_fold_settle:
  "timers_inv s \<Longrightarrow>
   timers_inv (foldl (\<lambda>st c. scheduleSettleEnteringChild (key (element c))
                   (st\<lparr>enteringChildren := insert (key (element c)) (enteringChildren st)\<rparr>)) s cs)"
  by (induction cs arbitrary: s) (simp_all add: timers_inv_scheduleSettle)

lemma timers_inv_removed_effect:
  "timers_inv s \<Longrightarrow> timers_inv (removed_layout_effect cs s)"
  by (simp add: removed_layout_effect_def Let_def timers_inv_fold_remove)

lemma timers_inv_added_effect:
  "timers_inv s \<Longrightarrow> timers_inv (added_effect a s)"
  by (simp add: added_effect_def Let_def timers_inv_fold_settle)

lemma timers_inv_update: "timers_inv s \<Longrightarrow> timers_inv (update cs s)"
  by (simp add: update_def Let_def timers_inv_removed_effect timers_inv_added_effect)

lemma timers_inv_timer_fires: "timers_inv s \<Longrightarrow> timers_inv (timer_fires h s)"
  by (auto simp: timer_fires_def Let_def settleEnteringChild_def timers_inv_drop
           split: option.splits timer_callback.splits)

lemma frame_fires_timer_fields [simp]:
  "timers (frame_fires h s) = timers s"
  "next_timer (frame_fires h s) = next_timer s"
  "liveTimeouts (frame_fires h s) = liveTimeouts s"
  by (simp_all add: frame_fires_def requestAnimationFrame_def Let_def
               split: option.splits frame_callback.splits)

lemma timers_inv_frame_fires [simp]: "timers_inv (frame_fires h s) = timers_inv s"
  by (rule timers_inv_cong) simp_all

lemma timers_inv_step: "timers_inv s \<Longrightarrow> timers_inv (step e s)"
  by (cases e) (simp_all add: timers_inv_update timers_inv_timer_fires)

lemma timers_inv_initial: "timers_inv (initial_instance p cs)"
  by (simp add: timers_inv_def initial_instance_def)

lemma reachable_timers_inv: "reachable s \<Longrightarrow> timers_inv s"
  by (induction rule: reachable.induct) (simp_all add: timers_inv_initial timers_inv_step)

section \<open>The registry invariant\<close>

lemma registry_inv_cong:
  "oldChildren t = oldChildren s \<Longrightarrow> leavingChildren t = leavingChildren s
     \<Longrightarrow> registry_inv t = registry_inv s"
  by (simp add: registry_inv_def)

lemma removed_effect_fields:
  "oldChildren (removed_layout_effect cs s) = oldChildren s"
  "props (removed_layout_effect cs s) = props s"
  "enteringChildren (removed_layout_effect cs s) = enteringChildren s"
  "leavingChildren (removed_layout_effect cs s) =
     (if contents (elementDiff (oldChildren s) cs) \<noteq> []
      then mergeInRemovedChildren (contents (elementDiff (oldChildren s) cs)) (leavingChildren s)
      else leavingChildren s)"
  "inactiveChildren (removed_layout_effect cs s) =
     inactiveChildren s \<union> (\<lambda>c. key (element c)) ` set (contents (elementDiff (oldChildren s) cs))"
  by (auto simp: removed_layout_effect_def Let_def)

lemma added_effect_fields:
  "oldChildren (added_effect a s) = oldChildren s"
  "props (added_effect a s) = props s"
  "leavingChildren (added_effect a s) =
     filter (\<lambda>c. key (element c) \<notin> (\<lambda>c. key (element c)) ` set (contents a)) (leavingChildren s)"
  "inactiveChildren (added_effect a s) =
     inactiveChildren s \<union> (\<lambda>c. key (element c)) ` set (contents a)"
  "enteringChildren (added_effect a s) =
     enteringChildren s \<union> (\<lambda>c. key (element c)) ` set (contents a)"
  by (auto simp: added_effect_def Let_def fold_settle_entering)

lemma update_fields:
  "oldChildren (update cs s) = cs"
  "props (update cs s) = props s"
  "leavingChildren (update cs s) =
     filter (\<lambda>c. key (element c) \<notin>
                  (\<lambda>c. key (element c)) ` set (contents (elementDiff cs (oldChildren s))))
       (if contents (elementDiff (oldChildren s) cs) \<noteq> []
        then mergeInRemovedChildren (contents (elementDiff (oldChildren s) cs)) (leavingChildren s)
        else leavingChildren s)"
  "enteringChildren (update cs s) =
     enteringChildren s \<union> (\<lambda>c. key (element c)) ` set (contents (elementDiff cs (oldChildren s)))"
  "inactiveChildren (update cs s) =
     inactiveChildren s
       \<union> (\<lambda>c. key (element c)) ` set (contents (elementDiff (oldChildren s) cs))
       \<union> (\<lambda>c. key (element c)) ` set (contents (elementDiff cs (oldChildren s)))"
  by (simp_all add: update_def Let_def removed_effect_fields added_effect_fields)

lemma diff_key_set:
  "(\<lambda>c. key (element c)) ` set (contents (elementDiff xs ys)) = key ` set xs - key ` set ys"
proof -
  have "(\<lambda>c. key (element c)) ` set (contents (elementDiff xs ys))
          = set (map (\<lambda>c. key (element c)) (contents (elementDiff xs ys)))"
    by simp
  also have "\<dots> = key ` set xs - key ` set ys"
    unfolding diff_keys by auto
  finally show ?thesis .
qed

lemma merge_key_set:
  "(\<lambda>c. key (element c)) ` set (mergeInRemovedChildren R L)
     = (\<lambda>c. key (element c)) ` set L \<union> (\<lambda>c. key (element c)) ` set R"
proof -
  have "set_mset (mset (map (\<lambda>c. key (element c)) (mergeInRemovedChildren R L)))
          = set_mset (mset (map (\<lambda>c. key (element c)) L) + mset (map (\<lambda>c. key (element c)) R))"
    by (simp only: map_key_merge)
  then show ?thesis by simp
qed

lemma merge_keys_distinct:
  assumes "distinct (map (\<lambda>c. key (element c)) L)" and "distinct (map (\<lambda>c. key (element c)) R)"
    and "(\<lambda>c. key (element c)) ` set L \<inter> (\<lambda>c. key (element c)) ` set R = {}"
  shows "distinct (map (\<lambda>c. key (element c)) (mergeInRemovedChildren R L))"
proof -
  have "distinct (map (\<lambda>c. key (element c)) L @ map (\<lambda>c. key (element c)) R)"
    using assms by simp
  moreover have "mset (map (\<lambda>c. key (element c)) (mergeInRemovedChildren R L))
                   = mset (map (\<lambda>c. key (element c)) L @ map (\<lambda>c. key (element c)) R)"
    unfolding map_key_merge by simp
  ultimately show ?thesis
    by (metis mset_eq_imp_distinct_iff)
qed


lemma image_filter_notin: "f ` set (filter (\<lambda>c. f c \<notin> K) xs) = f ` set xs - K"
  by auto

lemma registry_inv_update:
  fixes s :: "'p group_instance"
  assumes inv: "registry_inv s" and dn: "distinct (map key cs)"
  shows "registry_inv (update cs s)"
proof -
  let ?k = "\<lambda>c :: 'p element_with_index. key (element c)"
  let ?old = "oldChildren s"
  let ?L = "leavingChildren s"
  let ?R = "contents (elementDiff ?old cs)"
  let ?A = "contents (elementDiff cs ?old)"
  let ?L1 = "mergeInRemovedChildren ?R ?L"
  let ?L2 = "filter (\<lambda>c. ?k c \<notin> ?k ` set ?A) ?L1"
  have dO: "distinct (map key ?old)" and dL: "distinct (map ?k ?L)"
    and disj: "?k ` set ?L \<inter> key ` set ?old = {}"
    and sL: "sorted_wrt (<) (map index ?L)"
    and bL: "\<forall>c\<in>set ?L. 0 \<le> index c \<and> index c < int (length ?old + length ?L)"
    using inv unfolding registry_inv_def by blast+
  have L1: "(if ?R \<noteq> [] then ?L1 else ?L) = ?L1"
    using merge_sorted_id [OF sL] by simp
  have leaving: "leavingChildren (update cs s) = ?L2"
    unfolding update_fields L1 ..
  have kR: "?k ` set ?R = key ` set ?old - key ` set cs"
    by (rule diff_key_set)
  have kA: "?k ` set ?A = key ` set cs - key ` set ?old"
    by (rule diff_key_set)
  have kL1: "?k ` set ?L1 = ?k ` set ?L \<union> ?k ` set ?R"
    by (rule merge_key_set)
  have dR: "distinct (map ?k ?R)"
    unfolding diff_keys using dO by simp
  have dL1: "distinct (map ?k ?L1)"
    using dL dR disj kR by (intro merge_keys_distinct) auto
  have dL2: "distinct (map ?k ?L2)"
    using dL1 by (rule distinct_map_filter)
  have kL2: "?k ` set ?L2 = (?k ` set ?L \<union> ?k ` set ?R) - ?k ` set ?A"
    unfolding image_filter_notin kL1 ..
  have kL2': "?k ` set ?L2 = (?k ` set ?L \<union> (key ` set ?old - key ` set cs))
                               - (key ` set cs - key ` set ?old)"
    by (rule trans [OF kL2]) (simp only: kR kA)
  have disj2: "?k ` set ?L2 \<inter> key ` set cs = {}"
  proof -
    define KL KO KN where "KL = ?k ` set ?L" and "KO = key ` set ?old" and "KN = key ` set cs"
    have "?k ` set ?L2 = (KL \<union> (KO - KN)) - (KN - KO)"
      unfolding KL_def KO_def KN_def by (rule kL2')
    moreover have "KL \<inter> KO = {}" using disj by (simp add: KL_def KO_def)
    ultimately show ?thesis unfolding KN_def [symmetric] by blast
  qed
  have sL2: "sorted_wrt (<) (map index ?L2)"
    using merge_strict [OF sL diff_strict [of ?old cs]]
    by (simp add: sorted_wrt_map sorted_wrt_filter)
  have count: "length ?old + length ?L \<le> length cs + length ?L2"
  proof -
    have "length ?old + length ?L = card (key ` set ?old) + card (?k ` set ?L)"
      using distinct_card [OF dO] distinct_card [OF dL] by simp
    also have "\<dots> = card (key ` set ?old \<union> ?k ` set ?L)"
      using disj by (subst card_Un_disjoint) auto
    also have "\<dots> \<le> card (key ` set cs \<union> ?k ` set ?L2)"
    proof (rule card_mono)
      show "finite (key ` set cs \<union> ?k ` set ?L2)" by simp
      define KL KO KN where "KL = ?k ` set ?L" and "KO = key ` set ?old" and "KN = key ` set cs"
      have "?k ` set ?L2 = (KL \<union> (KO - KN)) - (KN - KO)"
        unfolding KL_def KO_def KN_def by (rule kL2')
      then show "key ` set ?old \<union> ?k ` set ?L \<subseteq> key ` set cs \<union> ?k ` set ?L2"
        unfolding KL_def [symmetric] KO_def [symmetric] KN_def [symmetric] by blast
    qed
    also have "\<dots> = card (key ` set cs) + card (?k ` set ?L2)"
      using disj2 by (subst card_Un_disjoint) auto
    also have "\<dots> = length cs + length ?L2"
      using distinct_card [OF dn] distinct_card [OF dL2] by simp
    finally show ?thesis .
  qed
  have bL2: "\<forall>c\<in>set ?L2. 0 \<le> index c \<and> index c < int (length cs + length ?L2)"
  proof
    fix c assume "c \<in> set ?L2"
    then have "c \<in> set ?L1" by simp
    then have "0 \<le> index c \<and> index c < int (length ?old + length ?L)"
      using merge_bounds [OF bL, of ?R c] diff_bounds [of _ ?old cs] by blast
    then show "0 \<le> index c \<and> index c < int (length cs + length ?L2)"
      using count by linarith
  qed
  show ?thesis
    unfolding registry_inv_def leaving update_fields(1)
    using dn dL2 disj2 sL2 bL2 by blast
qed


lemma reduce_keys:
  "map (\<lambda>c. key (element c)) (removeLeavingChild_reduce k r [] cs)
     = filter (\<lambda>x. x \<noteq> k) (map (\<lambda>c. key (element c)) cs)"
proof (induction cs arbitrary: r)
  case Nil
  show ?case by simp
next
  case (Cons c cs)
  show ?case
    using Cons.IH [of 1] Cons.IH [of r]
          reduce_acc [of k r "[\<lparr>element = element c, index = index c - r\<rparr>]" cs]
    by simp
qed

lemma removeLeavingChild_keys:
  "map (\<lambda>c. key (element c)) (removeLeavingChild k L)
     = filter (\<lambda>x. x \<noteq> k) (map (\<lambda>c. key (element c)) L)"
  by (simp add: removeLeavingChild_def reduce_keys)

lemma distinct_filter_one:
  "distinct xs \<Longrightarrow> k \<in> set xs \<Longrightarrow> length (filter (\<lambda>x. x \<noteq> k) xs) + 1 = length xs"
proof (induction xs)
  case Nil
  then show ?case by simp
next
  case (Cons x xs)
  show ?case
  proof (cases "x = k")
    case True
    then have "k \<notin> set xs" using Cons.prems by simp
    then have "filter (\<lambda>x. x \<noteq> k) xs = xs"
      by (auto intro: filter_True)
    then show ?thesis using True by simp
  next
    case False
    then show ?thesis using Cons by simp
  qed
qed

lemma registry_inv_remove:
  fixes s :: "'p group_instance"
  assumes inv: "registry_inv s"
  shows "registry_inv (s\<lparr>leavingChildren := removeLeavingChild k (leavingChildren s)\<rparr>)"
proof (cases "find (\<lambda>c. key (element c) = k) (leavingChildren s)")
  case None
  then have "k \<notin> set (map (key \<circ> element) (leavingChildren s))"
    by (auto simp: find_None_iff)
  then have "removeLeavingChild k (leavingChildren s) = leavingChildren s"
    by (simp add: removeLeavingChild_def reduce_absent)
  then show ?thesis using inv by (simp add: registry_inv_def)
next
  case (Some rm)
  let ?k = "\<lambda>c :: 'p element_with_index. key (element c)"
  let ?old = "oldChildren s"
  let ?L = "leavingChildren s"
  let ?L' = "removeLeavingChild k ?L"
  have dO: "distinct (map key ?old)" and dL: "distinct (map ?k ?L)"
    and disj: "?k ` set ?L \<inter> key ` set ?old = {}"
    and sL: "sorted_wrt (<) (map index ?L)"
    and bL: "\<forall>c\<in>set ?L. 0 \<le> index c \<and> index c < int (length ?old + length ?L)"
    using inv unfolding registry_inv_def by blast+
  have keys: "map ?k ?L' = filter (\<lambda>x. x \<noteq> k) (map ?k ?L)"
    by (rule removeLeavingChild_keys)
  have dL': "distinct (map ?k ?L')"
    unfolding keys using dL by simp
  have "set (map ?k ?L') \<subseteq> set (map ?k ?L)"
    unfolding keys by auto
  then have disj': "?k ` set ?L' \<inter> key ` set ?old = {}"
    using disj by auto
  have sL': "sorted_wrt (<) (map index ?L')"
    by (rule removeLeavingChild_shift(2) [OF sL Some])
  have "k \<in> set (map ?k ?L)"
    using Some by (auto simp: find_Some_iff)
  then have "length (filter (\<lambda>x. x \<noteq> k) (map ?k ?L)) + 1 = length (map ?k ?L)"
    by (rule distinct_filter_one [OF dL])
  then have len: "length ?L' + 1 = length ?L"
    using keys by (metis length_map)
  have "\<forall>c\<in>set ?L'. 0 \<le> index c \<and> index c < int (length ?old + length ?L) - 1"
    by (rule removeLeavingChild_shift(3) [OF sL Some bL])
  then have bL': "\<forall>c\<in>set ?L'. 0 \<le> index c \<and> index c < int (length ?old + length ?L')"
    using len by auto
  show ?thesis
    unfolding registry_inv_def using dO dL' disj' sL' bL' by simp
qed

lemma registry_inv_timer_fires:
  "registry_inv s \<Longrightarrow> registry_inv (timer_fires h s)"
proof (cases "timers s h")
  case None
  assume "registry_inv s"
  then show ?thesis using None by (simp add: timer_fires_def)
next
  case (Some p)
  assume inv: "registry_inv s"
  obtain cb d where p: "p = (cb, d)" by (cases p)
  have inv1: "registry_inv (s\<lparr>timers := (timers s)(h := None)\<rparr>)"
    using inv by (simp add: registry_inv_def)
  show ?thesis
  proof (cases cb)
    case (Settle k)
    have "registry_inv (timer_fires h s) = registry_inv s"
      by (rule registry_inv_cong)
         (simp_all add: timer_fires_def Some p Settle settleEnteringChild_def)
    then show ?thesis using inv by simp
  next
    case (Remove k)
    have "registry_inv (timer_fires h s) =
          registry_inv (s\<lparr>leavingChildren := removeLeavingChild k (leavingChildren s)\<rparr>)"
      by (rule registry_inv_cong) (simp_all add: timer_fires_def Some p Remove)
    then show ?thesis using registry_inv_remove [OF inv] by simp
  qed
qed

lemma frame_fires_registry_fields [simp]:
  "oldChildren (frame_fires h s) = oldChildren s"
  "leavingChildren (frame_fires h s) = leavingChildren s"
  "props (frame_fires h s) = props s"
  "enteringChildren (frame_fires h s) = enteringChildren s"
  by (simp_all add: frame_fires_def requestAnimationFrame_def Let_def
               split: option.splits frame_callback.splits)

lemma registry_inv_frame_fires [simp]: "registry_inv (frame_fires h s) = registry_inv s"
  by (rule registry_inv_cong) simp_all

lemma registry_inv_step: "registry_inv s \<Longrightarrow> event_ok e \<Longrightarrow> registry_inv (step e s)"
  by (cases e) (simp_all add: registry_inv_update registry_inv_timer_fires)

lemma registry_inv_initial:
  "distinct (map key cs) \<Longrightarrow> registry_inv (initial_instance p cs)"
  by (simp add: registry_inv_def initial_instance_def)

lemma reachable_registry_inv: "reachable s \<Longrightarrow> registry_inv s"
  by (induction rule: reachable.induct) (simp_all add: registry_inv_initial registry_inv_step)


section \<open>The claims about the render step\<close>

text \<open>
  Claim C1. At every reconciliation pass, that is at every render of a state the
  component can reach (from mounting, by renders with new children that respect the
  contract of unique keys, timers and animation frames), the render step returns an
  output whose length is the number of present children plus the number of leaving
  entries; no slot of it is empty; the leaving entries have pairwise different merged
  indices, each a slot of the output, and each entry sits at its merged index; and the
  present children fill the remaining slots, in their own order.
\<close>

theorem render_fills_every_slot:
  assumes "reachable s"
  shows "\<exists>out. render s = Inr out
           \<and> length out = length (oldChildren s) + length (leavingChildren s)
           \<and> (\<forall>i<length out. out ! i \<noteq> None)
           \<and> distinct (map index (leavingChildren s))
           \<and> (\<forall>c\<in>set (leavingChildren s).
                 0 \<le> index c \<and> nat (index c) < length out \<and>
                 out ! nat (index c) =
                   Some (render_leaving (transitionName (props s)) (wrapWith (props s))
                           (inactiveChildren s) c))
           \<and> map ((!) out)
                 (filter (\<lambda>i. int i \<notin> index ` set (leavingChildren s)) [0..<length out])
               = map (\<lambda>c. Some (render_child (transitionName (props s)) (wrapWith (props s))
                                     (enteringChildren s) (inactiveChildren s) c))
                   (oldChildren s)"
proof -
  have inv: "registry_inv s"
    using assms by (rule reachable_registry_inv)
  have d: "distinct (map index (leavingChildren s))"
    using inv by (simp add: registry_inv_def strict_sorted_iff)
  have r: "\<forall>c\<in>set (leavingChildren s).
             0 \<le> index c \<and> index c < int (length (oldChildren s) + length (leavingChildren s))"
    using inv by (simp add: registry_inv_def)
  obtain out where out:
    "render s = Inr out"
    "length out = length (oldChildren s) + length (leavingChildren s)"
    "\<forall>i<length out. out ! i \<noteq> None"
    "\<forall>c\<in>set (leavingChildren s). out ! nat (index c) =
        Some (render_leaving (transitionName (props s)) (wrapWith (props s))
                (inactiveChildren s) c)"
    "map ((!) out)
       (filter (\<lambda>i. int i \<notin> index ` set (leavingChildren s))
          [0..<length (oldChildren s) + length (leavingChildren s)])
     = map (\<lambda>c. Some (render_child (transitionName (props s)) (wrapWith (props s))
                           (enteringChildren s) (inactiveChildren s) c))
         (oldChildren s)"
    using childrenToRender_char [OF d r, of "transitionName (props s)" "wrapWith (props s)"
            "enteringChildren s" "inactiveChildren s"]
    unfolding render_def by blast
  have "\<forall>c\<in>set (leavingChildren s). nat (index c) < length out"
    using r out(2) by (auto simp: nat_less_iff)
  then show ?thesis
    using out d r by auto
qed


theorem render_fills_every_slot_witness:
  "reachable (step (Update [el ''A'', el ''C''])
                (initial_instance demo_props [el ''A'', el ''B'', el ''C'']))
   \<and> leavingChildren (step (Update [el ''A'', el ''C''])
                (initial_instance demo_props [el ''A'', el ''B'', el ''C'']))
       = [\<lparr>element = el ''B'', index = 1\<rparr>]
   \<and> render (step (Update [el ''A'', el ''C''])
                (initial_instance demo_props [el ''A'', el ''B'', el ''C'']))
       = Inr [Some (Cloned ((el ''A'')\<lparr>className := Some '' ''\<rparr>)),
              Some (Cloned ((el ''B'')\<lparr>className := Some '' transition-leave ''\<rparr>)),
              Some (Cloned ((el ''C'')\<lparr>className := Some '' ''\<rparr>))]
   \<and> (\<exists>out. render (step (Update [el ''A'', el ''C''])
                (initial_instance demo_props [el ''A'', el ''B'', el ''C''])) = Inr out
          \<and> length out = 3)"
proof -
  let ?s = "step (Update [el ''A'', el ''C''])
              (initial_instance demo_props [el ''A'', el ''B'', el ''C''])"
  have "reachable (initial_instance demo_props [el ''A'', el ''B'', el ''C''])"
    by (rule reachable.mounted) (simp add: el_def)
  then have r: "reachable ?s"
    by (rule reachable.stepped) (simp add: el_def)
  have l: "leavingChildren ?s = [\<lparr>element = el ''B'', index = 1\<rparr>]"
    by code_simp
  have o: "oldChildren ?s = [el ''A'', el ''C'']"
    by code_simp
  have v: "render ?s
       = Inr [Some (Cloned ((el ''A'')\<lparr>className := Some '' ''\<rparr>)),
              Some (Cloned ((el ''B'')\<lparr>className := Some '' transition-leave ''\<rparr>)),
              Some (Cloned ((el ''C'')\<lparr>className := Some '' ''\<rparr>))]"
    by code_simp
  from render_fills_every_slot [OF r] obtain out
    where "render ?s = Inr out" "length out = length (oldChildren ?s) + length (leavingChildren ?s)"
    by blast
  then have "\<exists>out. render ?s = Inr out \<and> length out = 3"
    unfolding l o by simp
  with r l v show ?thesis by blast
qed

text \<open>
  Claim C4, amended. At every reconciliation pass each leaving entry is emitted with the
  class string \<open>"<prefix>-leave "\<close> when its key is inactive and
  \<open>"<prefix>-leave <prefix>-leave-active"\<close> when it is not, and each present child with
  the empty string when its key is not entering, with \<open>"<prefix>-enter"\<close> when it is
  entering and inactive, and with \<open>"<prefix>-enter <prefix>-enter-active"\<close> when it is
  entering and not inactive: the active class is added to the base class, it does not
  replace it. (\<^verbatim>\<open>cloneWithClassName\<close> then puts the class string after the element's own
  \<^verbatim>\<open>className\<close>, or the wrapper's, and a space.)
\<close>

theorem render_class_names:
  assumes "reachable s"
  shows "\<exists>out. render s = Inr out
           \<and> (\<forall>c\<in>set (leavingChildren s).
                 out ! nat (index c) =
                   Some (cloneWithClassName (element c)
                           (if key (element c) \<in> inactiveChildren s
                            then transitionName (props s) @ ''-leave ''
                            else transitionName (props s) @ ''-leave '' @
                                 transitionName (props s) @ ''-leave-active'')
                           (wrapWith (props s))))
           \<and> (\<forall>j<length (oldChildren s). \<exists>i<length out.
                 out ! i =
                   Some (cloneWithClassName (oldChildren s ! j)
                           (if key (oldChildren s ! j) \<notin> enteringChildren s then []
                            else if key (oldChildren s ! j) \<in> inactiveChildren s
                            then transitionName (props s) @ ''-enter''
                            else transitionName (props s) @ ''-enter '' @
                                 transitionName (props s) @ ''-enter-active'')
                           (wrapWith (props s))))"
proof -
  let ?tn = "transitionName (props s)" and ?w = "wrapWith (props s)"
  let ?n = "length (oldChildren s) + length (leavingChildren s)"
  let ?fl = "filter (\<lambda>i. int i \<notin> index ` set (leavingChildren s)) [0..<?n]"
  have inv: "registry_inv s"
    using assms by (rule reachable_registry_inv)
  have d: "distinct (map index (leavingChildren s))"
    using inv by (simp add: registry_inv_def strict_sorted_iff)
  have r: "\<forall>c\<in>set (leavingChildren s).
             0 \<le> index c \<and> index c < int (length (oldChildren s) + length (leavingChildren s))"
    using inv by (simp add: registry_inv_def)
  obtain out where out:
    "render s = Inr out"
    "length out = ?n"
    "\<forall>c\<in>set (leavingChildren s). out ! nat (index c) =
        Some (render_leaving ?tn ?w (inactiveChildren s) c)"
    "map ((!) out) ?fl
     = map (\<lambda>c. Some (render_child ?tn ?w (enteringChildren s) (inactiveChildren s) c))
         (oldChildren s)"
    using childrenToRender_char [OF d r, of ?tn ?w "enteringChildren s" "inactiveChildren s"]
    unfolding render_def by blast
  have leaving: "\<forall>c\<in>set (leavingChildren s).
                 out ! nat (index c) =
                   Some (cloneWithClassName (element c)
                           (if key (element c) \<in> inactiveChildren s
                            then ?tn @ ''-leave ''
                            else ?tn @ ''-leave '' @ ?tn @ ''-leave-active'') ?w)"
    using out(3) by (simp add: render_leaving_def leaveClassName_def)
  have present: "\<exists>i<length out.
                 out ! i =
                   Some (cloneWithClassName (oldChildren s ! j)
                           (if key (oldChildren s ! j) \<notin> enteringChildren s then []
                            else if key (oldChildren s ! j) \<in> inactiveChildren s
                            then ?tn @ ''-enter''
                            else ?tn @ ''-enter '' @ ?tn @ ''-enter-active'') ?w)"
    if j: "j < length (oldChildren s)" for j
  proof -
    have len: "length ?fl = length (oldChildren s)"
      using out(4) by (metis length_map)
    then have "j < length ?fl" using j by simp
    then have "?fl ! j \<in> set ?fl" by (rule nth_mem)
    then have "?fl ! j \<in> set [0..<?n]" by (metis filter_is_subset subsetD)
    then have lt: "?fl ! j < length out" using out(2) by simp
    have "map ((!) out) ?fl ! j
            = map (\<lambda>c. Some (render_child ?tn ?w (enteringChildren s) (inactiveChildren s) c))
                (oldChildren s) ! j"
      using out(4) by simp
    then have "out ! (?fl ! j)
            = Some (render_child ?tn ?w (enteringChildren s) (inactiveChildren s)
                      (oldChildren s ! j))"
      using j len by simp
    then show ?thesis
      using lt by (auto simp: render_child_def childClassName_def)
  qed
  show ?thesis
    using out(1) leaving present by blast
qed

text \<open>Against claim C4 as stated: a leaving entry that is not inactive is emitted with
  both classes, not with \<open>"<prefix>-leave-active"\<close> alone.\<close>

theorem render_class_names_counterexample:
  "childrenToRender ''t'' None [] [\<lparr>element = el ''b'', index = 0\<rparr>] {} {}
     = Inr [Some (cloneWithClassName (el ''b'') ''t-leave t-leave-active'' None)]
   \<and> cloneWithClassName (el ''b'') ''t-leave t-leave-active'' None
       \<noteq> cloneWithClassName (el ''b'') ''t-leave-active'' None"
  by code_simp

theorem render_class_names_witness:
  "reachable (step (Update [el ''A'', el ''C''])
                (initial_instance demo_props [el ''A'', el ''B'', el ''C'']))
   \<and> (\<exists>out. render (step (Update [el ''A'', el ''C''])
                (initial_instance demo_props [el ''A'', el ''B'', el ''C''])) = Inr out
          \<and> out ! 1 = Some (cloneWithClassName (el ''B'') ''transition-leave '' None))"
proof -
  let ?s = "step (Update [el ''A'', el ''C''])
              (initial_instance demo_props [el ''A'', el ''B'', el ''C''])"
  have "reachable (initial_instance demo_props [el ''A'', el ''B'', el ''C''])"
    by (rule reachable.mounted) (simp add: el_def)
  then have r: "reachable ?s"
    by (rule reachable.stepped) (simp add: el_def)
  have l: "leavingChildren ?s = [\<lparr>element = el ''B'', index = 1\<rparr>]"
    by code_simp
  have i: "Some ''B'' \<in> inactiveChildren ?s"
    by code_simp
  have p: "transitionName (props ?s) = ''transition''" "wrapWith (props ?s) = None"
    by code_simp+
  from render_class_names [OF r] obtain out
    where "render ?s = Inr out"
      "\<forall>c\<in>set (leavingChildren ?s).
                 out ! nat (index c) =
                   Some (cloneWithClassName (element c)
                           (if key (element c) \<in> inactiveChildren ?s
                            then transitionName (props ?s) @ ''-leave ''
                            else transitionName (props ?s) @ ''-leave '' @
                                 transitionName (props ?s) @ ''-leave-active'')
                           (wrapWith (props ?s)))"
    by blast
  then have "render ?s = Inr out \<and>
             out ! 1 = Some (cloneWithClassName (el ''B'') ''transition-leave '' None)"
    unfolding l p using i by (simp add: el_def)
  with r show ?thesis by blast
qed


section \<open>The claims about construction and reinstatement\<close>

text \<open>
  Claim C9, amended. Construction never fails: for every pair of timeouts, positive or
  not, mounting succeeds and keeps the props as given; the timeouts are not looked at
  until they are handed, unchanged, to \<^verbatim>\<open>window.setTimeout\<close> as the delay of a settle or
  a remove timer.
\<close>

theorem mount_accepts_any_timeout:
  "mount p arrayChildren = Inr (initial_instance p arrayChildren)
   \<and> props (initial_instance p arrayChildren) = p
   \<and> timers (scheduleSettleEnteringChild k (initial_instance p arrayChildren)) 1
       = Some (Settle k, transitionEnterTimeout p)
   \<and> timers (scheduleRemoveLeavingChild k (initial_instance p arrayChildren)) 1
       = Some (Remove k, transitionLeaveTimeout p)"
  by (simp add: mount_def clear_all_timeouts_effect_def initial_instance_def
        scheduleSettle_eq scheduleRemove_eq)

text \<open>Against claim C9 as stated: mounting with an enter timeout of \<open>0\<close> and a leave
  timeout of \<open>-5\<close> succeeds.\<close>

theorem mount_accepts_any_timeout_counterexample:
  "mount (demo_props\<lparr>transitionEnterTimeout := 0, transitionLeaveTimeout := - 5\<rparr>) [el ''A'']
     = Inr (initial_instance
              (demo_props\<lparr>transitionEnterTimeout := 0, transitionLeaveTimeout := - 5\<rparr>)
              [el ''A''])
   \<and> transitionEnterTimeout
         (props (initial_instance
              (demo_props\<lparr>transitionEnterTimeout := 0, transitionLeaveTimeout := - 5\<rparr>)
              [el ''A''])) = 0
   \<and> transitionLeaveTimeout
         (props (initial_instance
              (demo_props\<lparr>transitionEnterTimeout := 0, transitionLeaveTimeout := - 5\<rparr>)
              [el ''A''])) = - 5"
  by (simp add: mount_def clear_all_timeouts_effect_def initial_instance_def)

text \<open>
  Claim C10. When keys are reinstated (the effect on the added children filters them out
  of the registry), every other entry stays in the registry as it is, merged index
  included, and in the same order: no index is decremented. The concrete run after the
  theorem sets this against \<open>removeLeavingChild\<close>, which moves the later entry down.
\<close>

theorem reinstate_keeps_indices:
  "leavingChildren (added_effect addedChildren s)
     = filter (\<lambda>c. key (element c) \<notin> (\<lambda>a. key (element a)) ` set (contents addedChildren))
         (leavingChildren s)
   \<and> (\<forall>c\<in>set (leavingChildren (added_effect addedChildren s)). c \<in> set (leavingChildren s))
   \<and> (\<forall>c\<in>set (leavingChildren s).
         key (element c) \<notin> (\<lambda>a. key (element a)) ` set (contents addedChildren)
         \<longrightarrow> c \<in> set (leavingChildren (added_effect addedChildren s)))
   \<and> map index (leavingChildren (added_effect addedChildren s))
       = map index (filter (\<lambda>c. key (element c) \<notin>
                                 (\<lambda>a. key (element a)) ` set (contents addedChildren))
                      (leavingChildren s))"
  by (simp add: added_effect_fields)

theorem reinstate_keeps_indices_witness:
  "leavingChildren (step (Update []) (initial_instance demo_props [el ''A'', el ''B'']))
     = [\<lparr>element = el ''A'', index = 0\<rparr>, \<lparr>element = el ''B'', index = 1\<rparr>]
   \<and> leavingChildren (added_effect (elementDiff [el ''A''] [])
         (step (Update []) (initial_instance demo_props [el ''A'', el ''B''])))
     = [\<lparr>element = el ''B'', index = 1\<rparr>]
   \<and> removeLeavingChild (Some ''A'')
         (leavingChildren (step (Update []) (initial_instance demo_props [el ''A'', el ''B''])))
     = [\<lparr>element = el ''B'', index = 0\<rparr>]"
proof -
  let ?s = "step (Update []) (initial_instance demo_props [el ''A'', el ''B''])"
  have l: "leavingChildren ?s
             = [\<lparr>element = el ''A'', index = 0\<rparr>, \<lparr>element = el ''B'', index = 1\<rparr>]"
    by code_simp
  have a: "contents (elementDiff [el ''A''] []) = [\<lparr>element = el ''A'', index = 0\<rparr>]"
    by code_simp
  have d: "removeLeavingChild (Some ''A'') (leavingChildren ?s)
             = [\<lparr>element = el ''B'', index = 0\<rparr>]"
    by code_simp
  have "leavingChildren (added_effect (elementDiff [el ''A''] []) ?s)
          = [\<lparr>element = el ''B'', index = 1\<rparr>]"
    using reinstate_keeps_indices [of "elementDiff [el ''A''] []" ?s]
    unfolding l a by (simp add: el_def)
  with l d show ?thesis by blast
qed

section \<open>The claims about the scheduler\<close>

lemma stale_cong:
  "timers t = timers s \<Longrightarrow> next_timer t = next_timer s \<Longrightarrow> stale h t = stale h s"
  by (simp add: stale_def)

lemma stale_scheduleSettle: "stale h s \<Longrightarrow> stale h (scheduleSettleEnteringChild k s)"
  by (auto simp: stale_def scheduleSettle_eq clearLiveTimeout_eq split: option.splits)

lemma stale_scheduleRemove: "stale h s \<Longrightarrow> stale h (scheduleRemoveLeavingChild k s)"
  by (auto simp: stale_def scheduleRemove_eq clearLiveTimeout_eq split: option.splits)

lemma stale_fold_remove:
  "stale h s \<Longrightarrow> stale h (foldl (\<lambda>st c. scheduleRemoveLeavingChild (key (element c)) st) s cs)"
  by (induction cs arbitrary: s) (simp_all add: stale_scheduleRemove)

lemma stale_fields [simp]:
  "stale h (s\<lparr>enteringChildren := x\<rparr>) = stale h s"
  "stale h (s\<lparr>leavingChildren := y\<rparr>) = stale h s"
  "stale h (s\<lparr>inactiveChildren := z\<rparr>) = stale h s"
  "stale h (s\<lparr>oldChildren := w\<rparr>) = stale h s"
  by (simp_all add: stale_def)

lemma stale_fold_settle:
  "stale h s \<Longrightarrow>
   stale h (foldl (\<lambda>st c. scheduleSettleEnteringChild (key (element c))
                   (st\<lparr>enteringChildren := insert (key (element c)) (enteringChildren st)\<rparr>)) s cs)"
  by (induction cs arbitrary: s) (simp_all add: stale_scheduleSettle)

lemma stale_activation [simp]: "stale h (schedule_activation s) = stale h s"
  by (rule stale_cong) simp_all

lemma stale_update: "stale h s \<Longrightarrow> stale h (update cs s)"
  by (simp add: update_def Let_def removed_layout_effect_def added_effect_def
        stale_fold_remove stale_fold_settle)

lemma stale_timer_fires: "stale h s \<Longrightarrow> stale h (timer_fires h' s)"
  by (auto simp: timer_fires_def Let_def settleEnteringChild_def stale_def
           split: option.splits timer_callback.splits)

lemma stale_frame_fires [simp]: "stale h (frame_fires h' s) = stale h s"
  by (rule stale_cong) simp_all

lemma stale_step: "stale h s \<Longrightarrow> stale h (step e s)"
  by (cases e) (simp_all add: stale_update stale_timer_fires)

lemma stale_run: "stale h s \<Longrightarrow> stale h (run es s)"
  unfolding run_def by (induction es arbitrary: s) (simp_all add: stale_step)

lemma pending_cleared_by_schedule:
  assumes inv: "timers_inv s" and p: "timers s h = Some (cb, d)" and k: "callback_key cb = k"
  shows "stale h (scheduleSettleEnteringChild k s)" "stale h (scheduleRemoveLeavingChild k s)"
proof -
  have live: "liveTimeouts s k = Some h"
    using inv p k unfolding timers_inv_def by blast
  then have "0 < h" "h < next_timer s"
    using inv unfolding timers_inv_def by blast+
  then show "stale h (scheduleSettleEnteringChild k s)" "stale h (scheduleRemoveLeavingChild k s)"
    using live
    by (simp_all add: stale_def scheduleSettle_eq scheduleRemove_eq clearLiveTimeout_eq)
qed

lemma one_pending_per_key:
  assumes inv: "timers_inv s"
    and "timers s h1 = Some (cb1, d1)" and "timers s h2 = Some (cb2, d2)"
    and "callback_key cb1 = callback_key cb2"
  shows "h1 = h2"
  using assms unfolding timers_inv_def by (metis option.inject)

text \<open>
  Claim C6. In every reachable state, a key has at most one pending settle timer and at
  most one pending remove timer. Scheduling a settle or a remove timer for a key clears
  every timer that was pending for that key, so that its handle is not pending after
  any further sequence of events (the prior callback can never fire), and registers the
  new timer under a fresh handle.
\<close>

theorem one_timer_per_key:
  assumes "reachable s"
  shows "(timers s h1 = Some (Settle k, d1) \<and> timers s h2 = Some (Settle k, d2) \<longrightarrow> h1 = h2)
       \<and> (timers s h1 = Some (Remove k, d1) \<and> timers s h2 = Some (Remove k, d2) \<longrightarrow> h1 = h2)
       \<and> (timers s h = Some (cb, d) \<and> callback_key cb = k \<longrightarrow>
            (\<forall>es. timers (run es (scheduleSettleEnteringChild k s)) h = None) \<and>
            (\<forall>es. timers (run es (scheduleRemoveLeavingChild k s)) h = None))
       \<and> timers (scheduleSettleEnteringChild k s) (next_timer s)
            = Some (Settle k, transitionEnterTimeout (props s))
       \<and> timers (scheduleRemoveLeavingChild k s) (next_timer s)
            = Some (Remove k, transitionLeaveTimeout (props s))"
proof -
  have inv: "timers_inv s"
    using assms by (rule reachable_timers_inv)
  have a: "h1 = h2" if "timers s h1 = Some (Settle k, d1) \<and> timers s h2 = Some (Settle k, d2)"
    using that one_pending_per_key [OF inv, of h1 "Settle k" d1 h2 "Settle k" d2] by simp
  have b: "h1 = h2" if "timers s h1 = Some (Remove k, d1) \<and> timers s h2 = Some (Remove k, d2)"
    using that one_pending_per_key [OF inv, of h1 "Remove k" d1 h2 "Remove k" d2] by simp
  have c: "(\<forall>es. timers (run es (scheduleSettleEnteringChild k s)) h = None) \<and>
           (\<forall>es. timers (run es (scheduleRemoveLeavingChild k s)) h = None)"
    if "timers s h = Some (cb, d) \<and> callback_key cb = k"
  proof -
    have "stale h (run es (scheduleSettleEnteringChild k s))"
         "stale h (run es (scheduleRemoveLeavingChild k s))" for es
      using that pending_cleared_by_schedule [OF inv, of h cb d k]
      by (auto intro: stale_run)
    then show ?thesis by (simp add: stale_def)
  qed
  show ?thesis
    using a b c by (simp add: scheduleSettle_eq scheduleRemove_eq)
qed

theorem one_timer_per_key_witness:
  "reachable (step (Update [el ''A'', el ''B'']) (initial_instance demo_props [el ''A'']))
   \<and> timers (step (Update [el ''A'', el ''B'']) (initial_instance demo_props [el ''A''])) 1
       = Some (Settle (Some ''B''), 1000)
   \<and> timers (scheduleSettleEnteringChild (Some ''B'')
               (step (Update [el ''A'', el ''B'']) (initial_instance demo_props [el ''A'']))) 1
       = None
   \<and> timers (scheduleSettleEnteringChild (Some ''B'')
               (step (Update [el ''A'', el ''B'']) (initial_instance demo_props [el ''A'']))) 2
       = Some (Settle (Some ''B''), 1000)"
proof -
  let ?s = "step (Update [el ''A'', el ''B'']) (initial_instance demo_props [el ''A''])"
  have "reachable (initial_instance demo_props [el ''A''])"
    by (rule reachable.mounted) (simp add: el_def)
  then have r: "reachable ?s"
    by (rule reachable.stepped) (simp add: el_def)
  have t: "timers ?s 1 = Some (Settle (Some ''B''), 1000)"
    by code_simp
  have n: "next_timer ?s = 2" "transitionEnterTimeout (props ?s) = 1000"
    by code_simp+
  note inst = one_timer_per_key [OF r, of _ "Some ''B''" _ _ _ 1 "Settle (Some ''B'')" 1000]
  have "\<forall>es. timers (run es (scheduleSettleEnteringChild (Some ''B'') ?s)) 1 = None"
    using inst t by simp
  then have "timers (run [] (scheduleSettleEnteringChild (Some ''B'') ?s)) 1 = None"
    by blast
  then have c: "timers (scheduleSettleEnteringChild (Some ''B'') ?s) 1 = None"
    by (simp add: run_def)
  have "timers (scheduleSettleEnteringChild (Some ''B'') ?s) 2 = Some (Settle (Some ''B''), 1000)"
    using inst n by simp
  with r t c show ?thesis by blast
qed


section \<open>Teardown\<close>

text \<open>Unmounting runs no cleanup, so it changes nothing: neither a timer nor an animation
  frame is cancelled.\<close>

lemma unmount_cancels_nothing: "unmount s = s"
  by (simp add: unmount_def run_cleanup_def clear_all_timeouts_effect_def)

text \<open>
  Claim C7 asks that teardown cancels every outstanding timer and activation callback.
  In the run below the component is mounted with \<open>A\<close>, rendered with \<open>A, B\<close> and then
  unmounted: the settle timer of \<open>B\<close> and the activation frame are still pending after
  the unmount, and the timer, when it fires, changes \<^verbatim>\<open>enteringChildren\<close>.
\<close>

theorem unmount_leaves_timers_pending:
  "mount demo_props [el ''A''] = Inr (initial_instance demo_props [el ''A''])
   \<and> timers (unmount (step (Update [el ''A'', el ''B''])
                          (initial_instance demo_props [el ''A'']))) 1
       = Some (Settle (Some ''B''), 1000)
   \<and> frames (unmount (step (Update [el ''A'', el ''B''])
                          (initial_instance demo_props [el ''A'']))) 1
       = Some (Outer {Some ''B''})
   \<and> enteringChildren (unmount (step (Update [el ''A'', el ''B''])
                          (initial_instance demo_props [el ''A'']))) = {Some ''B''}
   \<and> enteringChildren (step (TimerFires 1)
         (unmount (step (Update [el ''A'', el ''B''])
                          (initial_instance demo_props [el ''A''])))) = {}"
proof -
  let ?s = "step (Update [el ''A'', el ''B'']) (initial_instance demo_props [el ''A''])"
  have m: "mount demo_props [el ''A''] = Inr (initial_instance demo_props [el ''A''])"
    by (simp add: mount_def clear_all_timeouts_effect_def initial_instance_def)
  have t: "timers ?s 1 = Some (Settle (Some ''B''), 1000)"
    by code_simp
  have f: "frames ?s 1 = Some (Outer {Some ''B''})"
    by code_simp
  have e: "enteringChildren ?s = {Some ''B''}"
    by code_simp
  have e': "enteringChildren (step (TimerFires 1) ?s) = {}"
    by code_simp
  show ?thesis
    unfolding unmount_cancels_nothing using m t f e e' by blast
qed


section \<open>Reinstating a leaving key\<close>

lemma no_remove_timer_cong:
  "timers t = timers s \<Longrightarrow> no_remove_timer k t = no_remove_timer k s"
  by (simp add: no_remove_timer_def)

lemma nr_fields [simp]:
  "no_remove_timer k (s\<lparr>enteringChildren := x\<rparr>) = no_remove_timer k s"
  "no_remove_timer k (s\<lparr>leavingChildren := y\<rparr>) = no_remove_timer k s"
  "no_remove_timer k (s\<lparr>inactiveChildren := z\<rparr>) = no_remove_timer k s"
  "no_remove_timer k (s\<lparr>oldChildren := w\<rparr>) = no_remove_timer k s"
  by (simp_all add: no_remove_timer_def)

lemma nr_scheduleSettle:
  "no_remove_timer k s \<Longrightarrow> no_remove_timer k (scheduleSettleEnteringChild k' s)"
  by (auto simp: no_remove_timer_def scheduleSettle_eq clearLiveTimeout_eq
           split: option.splits if_splits)

lemma nr_scheduleRemove:
  "no_remove_timer k s \<Longrightarrow> k' \<noteq> k \<Longrightarrow> no_remove_timer k (scheduleRemoveLeavingChild k' s)"
  by (auto simp: no_remove_timer_def scheduleRemove_eq clearLiveTimeout_eq
           split: option.splits if_splits)

lemma nr_fold_settle:
  "no_remove_timer k s \<Longrightarrow>
   no_remove_timer k (foldl (\<lambda>st c. scheduleSettleEnteringChild (key (element c))
                   (st\<lparr>enteringChildren := insert (key (element c)) (enteringChildren st)\<rparr>)) s cs)"
  by (induction cs arbitrary: s) (simp_all add: nr_scheduleSettle)

lemma nr_fold_remove:
  "no_remove_timer k s \<Longrightarrow> k \<notin> (\<lambda>c. key (element c)) ` set cs \<Longrightarrow>
   no_remove_timer k (foldl (\<lambda>st c. scheduleRemoveLeavingChild (key (element c)) st) s cs)"
  by (induction cs arbitrary: s) (auto simp: nr_scheduleRemove)

lemma nr_activation [simp]: "no_remove_timer k (schedule_activation s) = no_remove_timer k s"
  by (rule no_remove_timer_cong) simp

lemma nr_added_effect: "no_remove_timer k s \<Longrightarrow> no_remove_timer k (added_effect a s)"
  by (simp add: added_effect_def Let_def nr_fold_settle)

lemma nr_removed_effect:
  assumes "no_remove_timer k s" and "k \<in> key ` set cs"
  shows "no_remove_timer k (removed_layout_effect cs s)"
proof -
  have "k \<notin> (\<lambda>c. key (element c)) ` set (contents (elementDiff (oldChildren s) cs))"
    unfolding diff_key_set using assms(2) by simp
  then show ?thesis
    using assms(1) by (simp add: removed_layout_effect_def Let_def nr_fold_remove)
qed

lemma nr_update:
  "no_remove_timer k s \<Longrightarrow> k \<in> key ` set cs \<Longrightarrow> no_remove_timer k (update cs s)"
  by (simp add: update_def Let_def nr_added_effect nr_removed_effect)

lemma nr_timer_fires: "no_remove_timer k s \<Longrightarrow> no_remove_timer k (timer_fires h s)"
  by (auto simp: timer_fires_def Let_def settleEnteringChild_def no_remove_timer_def
           split: option.splits timer_callback.splits)

lemma nr_frame_fires [simp]: "no_remove_timer k (frame_fires h s) = no_remove_timer k s"
  by (rule no_remove_timer_cong) simp

lemma leaving_keys_update:
  "(\<lambda>c. key (element c)) ` set (leavingChildren (update cs s))
     \<subseteq> ((\<lambda>c. key (element c)) ` set (leavingChildren s) \<union> (key ` set (oldChildren s) - key ` set cs))
        - (key ` set cs - key ` set (oldChildren s))"
proof -
  let ?k = "\<lambda>c :: 'a element_with_index. key (element c)"
  let ?R = "contents (elementDiff (oldChildren s) cs)"
  let ?A = "contents (elementDiff cs (oldChildren s))"
  let ?L1 = "if ?R \<noteq> [] then mergeInRemovedChildren ?R (leavingChildren s) else leavingChildren s"
  have sub: "?k ` set ?L1 \<subseteq> ?k ` set (leavingChildren s) \<union> ?k ` set ?R"
    by (simp add: merge_key_set)
  have eq: "?k ` set (leavingChildren (update cs s)) = ?k ` set ?L1 - ?k ` set ?A"
    unfolding update_fields by (rule image_filter_notin)
  have "?k ` set (leavingChildren (update cs s))
                     \<subseteq> (?k ` set (leavingChildren s) \<union> ?k ` set ?R) - ?k ` set ?A"
    unfolding eq by (rule Diff_mono [OF sub subset_refl])
  then show ?thesis
    unfolding diff_key_set .
qed

lemma leaving_keys_timer_fires:
  "(\<lambda>c. key (element c)) ` set (leavingChildren (timer_fires h s))
     \<subseteq> (\<lambda>c. key (element c)) ` set (leavingChildren s)"
proof (cases "timers s h")
  case None
  then show ?thesis by (simp add: timer_fires_def)
next
  case (Some p)
  obtain cb d where p: "p = (cb, d)" by (cases p)
  show ?thesis
  proof (cases cb)
    case (Settle k)
    then show ?thesis
      by (simp add: timer_fires_def Some p settleEnteringChild_def)
  next
    case (Remove k)
    have "set (map (\<lambda>c. key (element c)) (removeLeavingChild k (leavingChildren s)))
            \<subseteq> set (map (\<lambda>c. key (element c)) (leavingChildren s))"
      unfolding removeLeavingChild_keys by auto
    then show ?thesis
      by (simp add: timer_fires_def Some p Remove)
  qed
qed

lemma not_leaving_step:
  assumes "not_leaving k s" and "keeps k e"
  shows "not_leaving k (step e s)"
proof (cases e)
  case (Update cs)
  then have k: "k \<in> key ` set cs" using assms(2) by simp
  have "k \<notin> (\<lambda>c. key (element c)) ` set (leavingChildren (update cs s))"
    using leaving_keys_update [of cs s] assms(1) k by (auto simp: not_leaving_def)
  then show ?thesis
    using assms(1) k Update by (simp add: not_leaving_def nr_update)
next
  case (TimerFires h)
  then show ?thesis
    using assms(1) leaving_keys_timer_fires [of h s]
    by (auto simp: not_leaving_def nr_timer_fires)
next
  case (FrameFires h)
  then show ?thesis
    using assms(1) by (simp add: not_leaving_def)
qed

lemma not_leaving_run:
  "not_leaving k s \<Longrightarrow> \<forall>e\<in>set es. keeps k e \<Longrightarrow> not_leaving k (run es s)"
  unfolding run_def by (induction es arbitrary: s) (simp_all add: not_leaving_step)


lemma settle_pending_fields [simp]:
  "settle_pending k (s\<lparr>enteringChildren := x\<rparr>) = settle_pending k s"
  "settle_pending k (s\<lparr>leavingChildren := y\<rparr>) = settle_pending k s"
  "settle_pending k (s\<lparr>inactiveChildren := z\<rparr>) = settle_pending k s"
  "settle_pending k (s\<lparr>oldChildren := w\<rparr>) = settle_pending k s"
  by (simp_all add: settle_pending_def)

lemma settle_pending_cong:
  "timers t = timers s \<Longrightarrow> next_timer t = next_timer s \<Longrightarrow> liveTimeouts t = liveTimeouts s
     \<Longrightarrow> props t = props s \<Longrightarrow> settle_pending k t = settle_pending k s"
  by (simp add: settle_pending_def timers_inv_def)

lemma settle_pending_same:
  assumes inv: "timers_inv s"
  shows "settle_pending k (scheduleSettleEnteringChild k s)"
proof -
  let ?s' = "scheduleSettleEnteringChild k s"
  have a: "timers_inv ?s'"
    using inv by (rule timers_inv_scheduleSettle)
  have b: "timers ?s' (next_timer s) = Some (Settle k, transitionEnterTimeout (props ?s'))"
    by (simp add: scheduleSettle_eq)
  have c: "cb = Settle k" if "timers ?s' h = Some (cb, d) \<and> callback_key cb = k" for h cb d
  proof (cases "h = next_timer s")
    case True
    then show ?thesis using that by (simp add: scheduleSettle_eq)
  next
    case False
    then have old: "timers s h = Some (cb, d)" "liveTimeouts s k \<noteq> Some h"
      using that by (auto simp: scheduleSettle_eq timers_cleared [OF inv] split: if_splits)
    then have "liveTimeouts s (callback_key cb) = Some h"
      using inv unfolding timers_inv_def by blast
    then show ?thesis using old(2) that by simp
  qed
  show ?thesis
    unfolding settle_pending_def using a b c by blast
qed

lemma settle_pending_other:
  assumes sp: "settle_pending k s" and ne: "k' \<noteq> k"
  shows "settle_pending k (scheduleSettleEnteringChild k' s)"
proof -
  let ?s' = "scheduleSettleEnteringChild k' s"
  have inv: "timers_inv s"
    using sp by (simp add: settle_pending_def)
  obtain h0 where h0: "timers s h0 = Some (Settle k, transitionEnterTimeout (props s))"
    using sp unfolding settle_pending_def by blast
  have only: "\<And>h cb d. timers s h = Some (cb, d) \<Longrightarrow> callback_key cb = k \<Longrightarrow> cb = Settle k"
    using sp unfolding settle_pending_def by blast
  have live: "liveTimeouts s k = Some h0"
    using inv h0 unfolding timers_inv_def by fastforce
  have lt: "h0 < next_timer s"
    using inv live unfolding timers_inv_def by blast
  have "liveTimeouts s k' \<noteq> Some h0"
    using inv live ne unfolding timers_inv_def by blast
  then have b: "timers ?s' h0 = Some (Settle k, transitionEnterTimeout (props ?s'))"
    using h0 lt by (simp add: scheduleSettle_eq timers_cleared [OF inv])
  have a: "timers_inv ?s'"
    using inv by (rule timers_inv_scheduleSettle)
  have c: "cb = Settle k" if "timers ?s' h = Some (cb, d) \<and> callback_key cb = k" for h cb d
  proof (cases "h = next_timer s")
    case True
    then show ?thesis using that ne by (auto simp: scheduleSettle_eq)
  next
    case False
    then have "timers s h = Some (cb, d)"
      using that by (auto simp: scheduleSettle_eq timers_cleared [OF inv] split: if_splits)
    then show ?thesis using only that by blast
  qed
  show ?thesis
    unfolding settle_pending_def using a b c by blast
qed

lemma settle_pending_any:
  assumes "settle_pending k s"
  shows "settle_pending k (scheduleSettleEnteringChild k' s)"
proof (cases "k' = k")
  case True
  have "timers_inv s" using assms by (simp add: settle_pending_def)
  then show ?thesis unfolding True by (rule settle_pending_same)
next
  case False
  with assms show ?thesis by (rule settle_pending_other)
qed

lemma settle_pending_fold:
  "settle_pending k s \<Longrightarrow>
   settle_pending k (foldl (\<lambda>st c. scheduleSettleEnteringChild (key (element c))
                   (st\<lparr>enteringChildren := insert (key (element c)) (enteringChildren st)\<rparr>)) s cs)"
  by (induction cs arbitrary: s) (simp_all add: settle_pending_any)

lemma settle_pending_fold_mem:
  "timers_inv s \<Longrightarrow> k \<in> (\<lambda>c. key (element c)) ` set cs \<Longrightarrow>
   settle_pending k (foldl (\<lambda>st c. scheduleSettleEnteringChild (key (element c))
                   (st\<lparr>enteringChildren := insert (key (element c)) (enteringChildren st)\<rparr>)) s cs)"
proof (induction cs arbitrary: s)
  case Nil
  then show ?case by simp
next
  case (Cons c cs)
  show ?case
  proof (cases "key (element c) = k")
    case True
    have "settle_pending k (scheduleSettleEnteringChild k
            (s\<lparr>enteringChildren := insert k (enteringChildren s)\<rparr>))"
      using Cons.prems(1) by (intro settle_pending_same) simp
    then show ?thesis
      using True by (simp add: settle_pending_fold)
  next
    case False
    then have "k \<in> (\<lambda>c. key (element c)) ` set cs" using Cons.prems(2) by auto
    moreover have "timers_inv (scheduleSettleEnteringChild (key (element c))
            (s\<lparr>enteringChildren := insert (key (element c)) (enteringChildren s)\<rparr>))"
      using Cons.prems(1) by (intro timers_inv_scheduleSettle) simp
    ultimately show ?thesis
      using Cons.IH by simp
  qed
qed

lemma settle_pending_update:
  assumes inv: "timers_inv s" and k: "k \<in> key ` set cs" "k \<notin> key ` set (oldChildren s)"
  shows "settle_pending k (update cs s)"
proof -
  let ?A = "contents (elementDiff cs (oldChildren s))"
  let ?s2 = "removed_layout_effect cs (schedule_activation s)"
  have kA: "k \<in> (\<lambda>c. key (element c)) ` set ?A"
    unfolding diff_key_set using k by simp
  then have ne: "length ?A \<noteq> 0" by auto
  have inv2: "timers_inv ?s2"
    using inv by (simp add: timers_inv_removed_effect)
  have "settle_pending k (added_effect (elementDiff cs (oldChildren s)) ?s2)"
    using ne settle_pending_fold_mem [OF inv2 kA]
    by (simp add: added_effect_def Let_def)
  moreover have "settle_pending k (update cs s)
                   = settle_pending k (added_effect (elementDiff cs (oldChildren s)) ?s2)"
    by (rule settle_pending_cong) (simp_all add: update_def Let_def)
  ultimately show ?thesis by simp
qed

lemma render_present_slot:
  assumes "reachable s" and j: "j < length (oldChildren s)"
  shows "\<exists>out i. render s = Inr out \<and> i < length out \<and>
           out ! i = Some (render_child (transitionName (props s)) (wrapWith (props s))
                             (enteringChildren s) (inactiveChildren s) (oldChildren s ! j))"
proof -
  let ?tn = "transitionName (props s)" and ?w = "wrapWith (props s)"
  let ?n = "length (oldChildren s) + length (leavingChildren s)"
  let ?fl = "filter (\<lambda>i. int i \<notin> index ` set (leavingChildren s)) [0..<?n]"
  have inv: "registry_inv s"
    using assms(1) by (rule reachable_registry_inv)
  have d: "distinct (map index (leavingChildren s))"
    using inv by (simp add: registry_inv_def strict_sorted_iff)
  have r: "\<forall>c\<in>set (leavingChildren s).
             0 \<le> index c \<and> index c < int (length (oldChildren s) + length (leavingChildren s))"
    using inv by (simp add: registry_inv_def)
  obtain out where out:
    "render s = Inr out"
    "length out = ?n"
    "map ((!) out) ?fl
     = map (\<lambda>c. Some (render_child ?tn ?w (enteringChildren s) (inactiveChildren s) c))
         (oldChildren s)"
    using childrenToRender_char [OF d r, of ?tn ?w "enteringChildren s" "inactiveChildren s"]
    unfolding render_def by blast
  have len: "length ?fl = length (oldChildren s)"
    using out(3) by (metis length_map)
  then have "j < length ?fl" using j by simp
  then have "?fl ! j \<in> set ?fl" by (rule nth_mem)
  then have "?fl ! j \<in> set [0..<?n]" by (metis filter_is_subset subsetD)
  then have lt: "?fl ! j < length out" using out(2) by simp
  have "map ((!) out) ?fl ! j
          = map (\<lambda>c. Some (render_child ?tn ?w (enteringChildren s) (inactiveChildren s) c))
              (oldChildren s) ! j"
    using out(3) by simp
  then have "out ! (?fl ! j)
          = Some (render_child ?tn ?w (enteringChildren s) (inactiveChildren s)
                    (oldChildren s ! j))"
    using j len by simp
  then show ?thesis
    using out(1) lt by blast
qed

text \<open>
  Claim C5. Let a key be in the leaving registry of a reachable state, and let it
  reappear in the children of the next render (at position \<open>j\<close>; the children have
  unique keys). After that render the key has no entry in the registry; no remove timer
  is pending for it (the pending one was cleared when the settle timer was scheduled),
  so it can never be removed by a timer; its settle timer is pending; the key is entering
  and inactive, and the render step emits its element with the class \<open>"<prefix>-enter"\<close>.
  From then on, through every sequence of timer events, frame events and renders that
  keep the key in the input, the key stays out of the registry and without a remove
  timer: it is rendered as a present child (with the enter classes, or none once
  settled), never as a leaving one.
\<close>

theorem reinstated_key_enters:
  assumes "reachable s" and "distinct (map key cs)"
    and "k \<in> (\<lambda>c. key (element c)) ` set (leavingChildren s)"
    and "j < length cs" and "key (cs ! j) = k"
  shows "k \<notin> (\<lambda>c. key (element c)) ` set (leavingChildren (update cs s))
       \<and> (\<forall>h d. timers (update cs s) h \<noteq> Some (Remove k, d))
       \<and> (\<exists>h. timers (update cs s) h = Some (Settle k, transitionEnterTimeout (props s)))
       \<and> k \<in> enteringChildren (update cs s) \<and> k \<in> inactiveChildren (update cs s)
       \<and> (\<exists>out i. render (update cs s) = Inr out \<and> i < length out \<and>
             out ! i = Some (cloneWithClassName (cs ! j)
                               (transitionName (props s) @ ''-enter'') (wrapWith (props s))))
       \<and> (\<forall>es. (\<forall>e\<in>set es. keeps k e) \<longrightarrow> not_leaving k (run es (update cs s)))"
proof -
  let ?s' = "update cs s"
  have inv: "timers_inv s" and reg: "registry_inv s"
    using assms(1) by (rule reachable_timers_inv, rule reachable_registry_inv)
  have kN: "k \<in> key ` set cs"
    using assms(4,5) by (metis imageI nth_mem)
  have kO: "k \<notin> key ` set (oldChildren s)"
    using reg assms(3) unfolding registry_inv_def by blast
  have leave: "k \<notin> (\<lambda>c. key (element c)) ` set (leavingChildren ?s')"
    using leaving_keys_update [of cs s] kN kO by blast
  have sp: "settle_pending k ?s'"
    by (rule settle_pending_update [OF inv kN kO])
  have p: "props ?s' = props s" "oldChildren ?s' = cs"
    by (simp_all add: update_fields)
  have nr: "\<forall>h d. timers ?s' h \<noteq> Some (Remove k, d)"
  proof (intro allI notI)
    fix h d assume "timers ?s' h = Some (Remove k, d)"
    then have "Remove k = Settle k"
      using sp unfolding settle_pending_def by (metis callback_key.simps(2))
    then show False by simp
  qed
  have st: "\<exists>h. timers ?s' h = Some (Settle k, transitionEnterTimeout (props s))"
    using sp p(1) unfolding settle_pending_def by metis
  have kA: "k \<in> (\<lambda>c. key (element c)) ` set (contents (elementDiff cs (oldChildren s)))"
    unfolding diff_key_set using kN kO by simp
  then have en: "k \<in> enteringChildren ?s'" and ina: "k \<in> inactiveChildren ?s'"
    by (simp_all add: update_fields)
  have r': "reachable ?s'"
    using reachable.stepped [OF assms(1), of "Update cs"] assms(2) by simp
  have "j < length (oldChildren ?s')" using assms(4) p(2) by simp
  from render_present_slot [OF r' this] obtain out i
    where "render ?s' = Inr out" "i < length out"
      "out ! i = Some (render_child (transitionName (props ?s')) (wrapWith (props ?s'))
                             (enteringChildren ?s') (inactiveChildren ?s') (oldChildren ?s' ! j))"
    by blast
  then have rendered: "\<exists>out i. render ?s' = Inr out \<and> i < length out \<and>
             out ! i = Some (cloneWithClassName (cs ! j)
                               (transitionName (props s) @ ''-enter'') (wrapWith (props s)))"
    using en ina assms(5) unfolding p
    by (auto simp: render_child_def childClassName_def)
  have nl: "not_leaving k ?s'"
    using leave nr by (simp add: not_leaving_def no_remove_timer_def)
  have later: "\<forall>es. (\<forall>e\<in>set es. keeps k e) \<longrightarrow> not_leaving k (run es ?s')"
    using not_leaving_run [OF nl] by blast
  show ?thesis
    using leave nr st en ina rendered later by blast
qed


theorem reinstated_key_enters_witness:
  "reachable (step (Update [el ''A'', el ''B''])
                (initial_instance demo_props [el ''A'', el ''B'', el ''C'']))
   \<and> leavingChildren (step (Update [el ''A'', el ''B''])
                (initial_instance demo_props [el ''A'', el ''B'', el ''C'']))
       = [\<lparr>element = el ''C'', index = 2\<rparr>]
   \<and> timers (step (Update [el ''A'', el ''B''])
                (initial_instance demo_props [el ''A'', el ''B'', el ''C''])) 1
       = Some (Remove (Some ''C''), 1000)
   \<and> Some ''C'' \<notin> (\<lambda>c. key (element c)) ` set (leavingChildren
         (update [el ''A'', el ''B'', el ''C'']
            (step (Update [el ''A'', el ''B''])
                (initial_instance demo_props [el ''A'', el ''B'', el ''C'']))))
   \<and> timers (update [el ''A'', el ''B'', el ''C'']
            (step (Update [el ''A'', el ''B''])
                (initial_instance demo_props [el ''A'', el ''B'', el ''C'']))) 1 = None
   \<and> timers (update [el ''A'', el ''B'', el ''C'']
            (step (Update [el ''A'', el ''B''])
                (initial_instance demo_props [el ''A'', el ''B'', el ''C'']))) 2
       = Some (Settle (Some ''C''), 1000)
   \<and> render (update [el ''A'', el ''B'', el ''C'']
            (step (Update [el ''A'', el ''B''])
                (initial_instance demo_props [el ''A'', el ''B'', el ''C''])))
       = Inr [Some (Cloned ((el ''A'')\<lparr>className := Some '' ''\<rparr>)),
              Some (Cloned ((el ''B'')\<lparr>className := Some '' ''\<rparr>)),
              Some (Cloned ((el ''C'')\<lparr>className := Some '' transition-enter''\<rparr>))]"
proof -
  let ?s = "step (Update [el ''A'', el ''B''])
              (initial_instance demo_props [el ''A'', el ''B'', el ''C''])"
  let ?cs = "[el ''A'', el ''B'', el ''C'']"
  have "reachable (initial_instance demo_props [el ''A'', el ''B'', el ''C''])"
    by (rule reachable.mounted) (simp add: el_def)
  then have r: "reachable ?s"
    by (rule reachable.stepped) (simp add: el_def)
  have l: "leavingChildren ?s = [\<lparr>element = el ''C'', index = 2\<rparr>]"
    by code_simp
  have t: "timers ?s 1 = Some (Remove (Some ''C''), 1000)"
    by code_simp
  have t1: "timers (update ?cs ?s) 1 = None"
    by code_simp
  have t2: "timers (update ?cs ?s) 2 = Some (Settle (Some ''C''), 1000)"
    by code_simp
  have v: "render (update ?cs ?s)
       = Inr [Some (Cloned ((el ''A'')\<lparr>className := Some '' ''\<rparr>)),
              Some (Cloned ((el ''B'')\<lparr>className := Some '' ''\<rparr>)),
              Some (Cloned ((el ''C'')\<lparr>className := Some '' transition-enter''\<rparr>))]"
    by code_simp
  have d: "distinct (map key ?cs)" by (simp add: el_def)
  have k: "Some ''C'' \<in> (\<lambda>c. key (element c)) ` set (leavingChildren ?s)"
    unfolding l by (simp add: el_def)
  have j: "(2::nat) < length ?cs" "key (?cs ! 2) = Some ''C''"
    by (simp_all add: el_def)
  have "Some ''C'' \<notin> (\<lambda>c. key (element c)) ` set (leavingChildren (update ?cs ?s))"
    using reinstated_key_enters [OF r d k j] by blast
  with r l t t1 t2 v show ?thesis by blast
qed

end
